theory Spec2Isabelle
  imports Main "HOL-Library.Sublist"
begin

section \<open>The todo plugin registrar (plugin.ts, lines 25-47)\<close>

text \<open>A thrown JavaScript exception, as a value.\<close>

datatype js_error = TypeError

text \<open>
  The first unit of \<^verbatim>\<open>plugin.ts\<close> is declarative: a configuration literal handed to
  \<^verbatim>\<open>createPlugin\<close>, and one extension handed to \<^verbatim>\<open>todoPlugin.provide\<close>. The API
  reference \<^verbatim>\<open>todoApiRef\<close>, the class \<^verbatim>\<open>TodoClient\<close>, the route reference
  \<^verbatim>\<open>rootRouteRef\<close> and the component \<^verbatim>\<open>ExampleComponent\<close> are imported from sibling
  modules that are not among the sources: the module takes them as parameters, of the types
  \<open>'a\<close> (API references), \<open>'c\<close> (clients), \<open>'r\<close> (route references) and \<open>'m\<close>
  (components).
\<close>

record ('a, 'c) api_factory =
  api :: 'a
  deps :: "(string \<times> 'a) list"
  factory :: "unit \<Rightarrow> 'c"

record ('a, 'c, 'r) plugin_config =
  id_plugin :: string
  apis :: "('a, 'c) api_factory list"
  routes :: "(string \<times> 'r) list"

record ('m, 'r) routable_extension =
  component_loader :: "unit \<Rightarrow> 'm"
  mountPoint :: 'r

record ('m, 'r) provided_extension =
  provider :: string
  extension :: "('m, 'r) routable_extension"

text \<open>
  Modelled from the spec: the framework constructors \<^verbatim>\<open>createApiFactory\<close>,
  \<^verbatim>\<open>createPlugin\<close>, \<^verbatim>\<open>createRoutableExtension\<close> and the method \<^verbatim>\<open>provide\<close> live in
  \<^verbatim>\<open>@backstage/core\<close>, which is not among the sources. The spec describes the descriptor as
  "identifier (string), a set of API factories, a mapping of named routes to route
  references. Immutable after construction" with "no error conditions (construction cannot
  fail)": each constructor returns the configuration it is given and never an error, and
  \<^verbatim>\<open>provide\<close> ties the extension to the plugin that provides it.
\<close>

definition createApiFactory :: "('a, 'c) api_factory \<Rightarrow> js_error + ('a, 'c) api_factory" where
  "createApiFactory config = Inr config"

definition createPlugin ::
  "('a, 'c, 'r) plugin_config \<Rightarrow> js_error + ('a, 'c, 'r) plugin_config" where
  "createPlugin config = Inr config"

definition createRoutableExtension ::
  "('m, 'r) routable_extension \<Rightarrow> js_error + ('m, 'r) routable_extension" where
  "createRoutableExtension config = Inr config"

definition provide ::
  "('a, 'c, 'r) plugin_config \<Rightarrow> ('m, 'r) routable_extension
    \<Rightarrow> js_error + ('m, 'r) provided_extension" where
  "provide plugin ext = Inr \<lparr>provider = id_plugin plugin, extension = ext\<rparr>"

text \<open>The two exports of the module.\<close>

record ('a, 'c, 'r, 'm) plugin_module =
  todoPlugin :: "('a, 'c, 'r) plugin_config"
  EntityTodoContent :: "('m, 'r) provided_extension"

text \<open>
  Evaluating the module: the calls of lines 25-47 in the order JavaScript makes them, the
  first exception ending the evaluation. \<open>newTodoClient\<close> is the constructor call
  \<^verbatim>\<open>new TodoClient()\<close>, which only the factory makes; the component is loaded only when the
  extension asks for it.
\<close>

definition load_plugin_module ::
  "'a \<Rightarrow> (unit \<Rightarrow> 'c) \<Rightarrow> 'r \<Rightarrow> 'm \<Rightarrow> js_error + ('a, 'c, 'r, 'm) plugin_module" where
  "load_plugin_module todoApiRef newTodoClient rootRouteRef ExampleComponent =
     (case createApiFactory
             \<lparr>api = todoApiRef, deps = [], factory = (\<lambda>_. newTodoClient ())\<rparr> of
        Inl err \<Rightarrow> Inl err
      | Inr apiFactory \<Rightarrow>
     (case createPlugin
             \<lparr>id_plugin = ''todo'', apis = [apiFactory],
              routes = [(''root'', rootRouteRef)]\<rparr> of
        Inl err \<Rightarrow> Inl err
      | Inr plugin \<Rightarrow>
     (case createRoutableExtension
             \<lparr>component_loader = (\<lambda>_. ExampleComponent), mountPoint = rootRouteRef\<rparr> of
        Inl err \<Rightarrow> Inl err
      | Inr routable \<Rightarrow>
     (case provide plugin routable of
        Inl err \<Rightarrow> Inl err
      | Inr content \<Rightarrow> Inr \<lparr>todoPlugin = plugin, EntityTodoContent = content\<rparr>))))"


section \<open>The documentation reader hook \<^verbatim>\<open>useTechDocsReaderDom\<close> (lines 103-258)\<close>

subsection \<open>Data\<close>

text \<open>
  \<^verbatim>\<open>CompoundEntityRef\<close> of \<^verbatim>\<open>@backstage/catalog-model\<close>: the hook's only argument.
\<close>

record compound_entity_ref =
  kind :: string
  namespace :: string
  name :: string

text \<open>
  The transformers the hook builds. A transformer is a closure; the constructor keeps what the
  closure captures from the hook: \<^verbatim>\<open>addBaseUrl\<close> gets the entity and the content path,
  \<^verbatim>\<open>addLinkClickListener\<close> gets \<^verbatim>\<open>window.location.origin\<close> and an \<^verbatim>\<open>onClick\<close> that refers to
  \<^verbatim>\<open>transformedElement\<close>, and \<^verbatim>\<open>onCssReady\<close> gets an \<^verbatim>\<open>onLoaded\<close> that refers to
  \<^verbatim>\<open>transformedElement\<close> too. The injected services (\<^verbatim>\<open>techdocsStorageApi\<close>,
  \<^verbatim>\<open>scmIntegrationsApi\<close>, \<^verbatim>\<open>theme\<close>, the sanitizer and styles hooks) belong to the
  environment below. The type \<open>'e\<close> is the DOM \<^verbatim>\<open>Element\<close>.
\<close>

datatype 'e transformer =
    sanitizerTransformer
  | addBaseUrl compound_entity_ref string
  | rewriteDocLinks
  | addSidebarToggle
  | removeMkdocsHeader
  | simplifyMkdocsFooter
  | addGitFeedbackLink
  | stylesTransformer
  | scrollIntoAnchor
  | scrollIntoNavigation
  | copyToClipboard
  | addLinkClickListener string 'e
  | onCssReady 'e

text \<open>\<^verbatim>\<open>new URL(url)\<close>: only the \<^verbatim>\<open>hash\<close> getter is read (lines 192 and 199).\<close>

record parsed_url =
  hash :: string

text \<open>
  The browser and the injected services, as far as the hook reads them. \<open>'w\<close> is the number
  \<^verbatim>\<open>getBoundingClientRect().width\<close> returns.
  \<^item> \<open>parseFromString\<close>: the DOM parser that turns the raw page into an element;
  \<^item> \<open>applyTransformer\<close>: running one transformer on an element; \<open>None\<close> when it throws or
    its promise rejects;
  \<^item> \<open>innerHTML\<close>, \<open>innerText\<close>, \<open>querySelector\<close>, \<open>boundingWidth\<close>: the DOM getters;
  \<^item> \<open>origin\<close>: \<^verbatim>\<open>window.location.origin\<close>;
  \<^item> \<open>newURL\<close>: the \<^verbatim>\<open>URL\<close> constructor, \<open>None\<close> when it throws \<^verbatim>\<open>TypeError\<close>.
  The environment is a family of functions: the same transformer on the same element gives
  the same result, and the getters do not change while the hook runs.
\<close>

record ('e, 'w) env =
  parseFromString :: "string \<Rightarrow> 'e"
  applyTransformer :: "'e transformer \<Rightarrow> 'e \<Rightarrow> 'e option"
  innerHTML :: "'e \<Rightarrow> string"
  innerText :: "'e \<Rightarrow> string"
  querySelector :: "'e \<Rightarrow> string \<Rightarrow> 'e option"
  boundingWidth :: "'e \<Rightarrow> 'w"
  origin :: string
  newURL :: "string \<Rightarrow> parsed_url option"

text \<open>
  Every effect the hook has on the outside world is an entry of a trace. The first argument
  of \<open>Invoke\<close>, \<open>WindowScroll\<close> and \<open>SetDom\<close> is the number of the effect execution (the
  render request) that caused it.
  \<^item> \<open>Invoke r t\<close>: the pipeline of request \<open>r\<close> called transformer \<open>t\<close>;
  \<^item> \<open>WindowScroll r n\<close>: \<^verbatim>\<open>window.scroll({ top: n })\<close>;
  \<^item> \<open>SetDom r el\<close>: \<^verbatim>\<open>setDom(el)\<close>;
  \<^item> \<open>SetFooterWidth f w\<close>: \<^verbatim>\<open>f.style.width = `${w}px`\<close>;
  \<^item> \<open>CaptureEvent a l to\<close>: \<^verbatim>\<open>analytics.captureEvent(a, l, { attributes: { to } })\<close>;
  \<^item> \<open>WindowOpen u t\<close>: \<^verbatim>\<open>window.open(u, t)\<close>; \<open>Navigate u\<close>: \<^verbatim>\<open>navigate(u)\<close>;
  \<^item> \<open>ScrollIntoView el\<close>: \<^verbatim>\<open>el.scrollIntoView()\<close>.
\<close>

datatype ('e, 'w) action =
    Invoke nat "'e transformer"
  | WindowScroll nat nat
  | SetDom nat 'e
  | SetFooterWidth 'e 'w
  | CaptureEvent string string string
  | WindowOpen string string
  | Navigate string
  | ScrollIntoView 'e

subsection \<open>The transformer pipeline\<close>

text \<open>
  Modelled from the spec: \<^verbatim>\<open>transform\<close> (imported as \<^verbatim>\<open>transformer\<close> from
  \<^verbatim>\<open>../../transformers\<close>) is not among the sources. The spec: "a fixed ordered list of
  independent transformer steps applied sequentially, where each step receives the output of
  the previous step"; "no transform is retried; no partial-pipeline rollback exists: if a
  transform throws, the pipeline run simply never resolves". The result is the list of
  transformers that were called, in call order, and the element the promise resolves to
  (\<open>None\<close>: the promise rejects). \<^verbatim>\<open>preRender\<close> passes a string, which is parsed into
  the element the first transformer receives; \<^verbatim>\<open>postRender\<close> passes an element.
\<close>

fun transform ::
  "('e, 'w) env \<Rightarrow> 'e \<Rightarrow> 'e transformer list \<Rightarrow> 'e transformer list \<times> 'e option" where
  "transform E d [] = ([], Some d)"
| "transform E d (t # ts) =
     (case applyTransformer E t d of
        None \<Rightarrow> ([t], None)
      | Some d' \<Rightarrow> (case transform E d' ts of (called, res) \<Rightarrow> (t # called, res)))"

text \<open>Lines 145-169: the transformers of \<^verbatim>\<open>preRender\<close>, in the order of the array literal.\<close>

definition preRender_transformers ::
  "compound_entity_ref \<Rightarrow> string \<Rightarrow> 'e transformer list" where
  "preRender_transformers entityRef contentPath =
     [sanitizerTransformer,
      addBaseUrl entityRef contentPath,
      rewriteDocLinks,
      addSidebarToggle,
      removeMkdocsHeader,
      simplifyMkdocsFooter,
      addGitFeedbackLink,
      stylesTransformer]"

definition preRender ::
  "('e, 'w) env \<Rightarrow> compound_entity_ref \<Rightarrow> string \<Rightarrow> string
    \<Rightarrow> 'e transformer list \<times> 'e option" where
  "preRender E entityRef rawContent contentPath =
     transform E (parseFromString E rawContent)
       (preRender_transformers entityRef contentPath)"

text \<open>Lines 172-222: the transformers of \<^verbatim>\<open>postRender\<close>.\<close>

definition postRender_transformers :: "('e, 'w) env \<Rightarrow> 'e \<Rightarrow> 'e transformer list" where
  "postRender_transformers E transformedElement =
     [scrollIntoAnchor,
      scrollIntoNavigation,
      copyToClipboard,
      addLinkClickListener (origin E) transformedElement,
      onCssReady transformedElement]"

definition postRender ::
  "('e, 'w) env \<Rightarrow> 'e \<Rightarrow> 'e transformer list \<times> 'e option" where
  "postRender E transformedElement =
     transform E transformedElement (postRender_transformers E transformedElement)"

subsection \<open>The click handler (lines 180-209)\<close>

text \<open>
  \<^verbatim>\<open>String.prototype.replace\<close> with a string pattern: the first occurrence of the pattern is
  replaced. The handler's replacement is the empty string, which has no \<^verbatim>\<open>$\<close> patterns.
\<close>

fun string_replace :: "string \<Rightarrow> string \<Rightarrow> string \<Rightarrow> string" where
  "string_replace pat rep [] = (if pat = [] then rep else [])"
| "string_replace pat rep (c # cs) =
     (if prefix pat (c # cs) then rep @ drop (length pat) (c # cs)
      else c # string_replace pat rep cs)"

text \<open>
  The \<^verbatim>\<open>MouseEvent\<close>: \<open>target\<close> is the element the click landed on (missing only in
  the handler's cast, \<^verbatim>\<open>HTMLAnchorElement | undefined\<close>), \<open>currentTarget\<close> the element
  whose listener is running. \<^verbatim>\<open>addLinkClickListener\<close> listens on the links of the page, so
  \<open>currentTarget\<close> is the clicked link; \<open>target\<close> is that link or an element inside it.
  The handler reads \<open>ctrlKey\<close>, \<open>metaKey\<close> and \<open>target\<close> only.
\<close>

record 'e mouse_event =
  ctrlKey :: bool
  metaKey :: bool
  target :: "'e option"
  currentTarget :: 'e

text \<open>The selector \<^verbatim>\<open>[id="${parsedUrl.hash.slice(1)}"]\<close> of line 199.\<close>

definition id_selector :: "string \<Rightarrow> string" where
  "id_selector h = ''[id='' @ [CHR 0x22] @ drop 1 h @ [CHR 0x22] @ '']''"

text \<open>
  Lines 186-187: \<^verbatim>\<open>event.target?.innerText || url\<close>. A string is falsy when it is empty.
\<close>

definition link_text :: "('e, 'w) env \<Rightarrow> 'e mouse_event \<Rightarrow> string \<Rightarrow> string" where
  "link_text E event url =
     (case target event of
        None \<Rightarrow> url
      | Some a \<Rightarrow> if innerText E a = [] then url else innerText E a)"

text \<open>
  \<^verbatim>\<open>onClick\<close>: \<^verbatim>\<open>new URL(url)\<close> on line 183 comes before every effect, so a URL that does
  not parse leaves no trace.
\<close>

definition onClick ::
  "('e, 'w) env \<Rightarrow> 'e \<Rightarrow> 'e mouse_event \<Rightarrow> string \<Rightarrow> js_error + ('e, 'w) action list" where
  "onClick E transformedElement event url =
     (let modifierActive = (ctrlKey event \<or> metaKey event) in
      case newURL E url of
        None \<Rightarrow> Inl TypeError
      | Some parsedUrl \<Rightarrow>
          let linkText = link_text E event url;
              to = string_replace (origin E) [] url;
              captured = [CaptureEvent ''click'' linkText to]
          in Inr (captured @
               (if hash parsedUrl \<noteq> [] then
                  (if modifierActive then [WindowOpen url ''_blank'']
                   else Navigate url #
                     (case querySelector E transformedElement (id_selector (hash parsedUrl)) of
                        None \<Rightarrow> []
                      | Some el \<Rightarrow> [ScrollIntoView el]))
                else
                  (if modifierActive then [WindowOpen url ''_blank'']
                   else [Navigate url]))))"


subsection \<open>The footer width (lines 121-142)\<close>

text \<open>
  \<^verbatim>\<open>updateFooterWidth\<close>, a closure over the state variable \<^verbatim>\<open>dom\<close>: nothing without a
  mounted element, nothing without a \<^verbatim>\<open>.md-footer\<close> inside it.
\<close>

definition updateFooterWidth :: "('e, 'w) env \<Rightarrow> 'e option \<Rightarrow> ('e, 'w) action list" where
  "updateFooterWidth E mounted =
     (case mounted of
        None \<Rightarrow> []
      | Some d \<Rightarrow>
          (case querySelector E d ''.md-footer'' of
             None \<Rightarrow> []
           | Some footer \<Rightarrow> [SetFooterWidth footer (boundingWidth E d)]))"

subsection \<open>The hook as a state machine\<close>

text \<open>
  One execution of the render effect (lines 224-255) is a \<open>run\<close>: the raw page and path it was
  started with, its local variable \<^verbatim>\<open>shouldReplaceContent\<close>, and where its promise chain
  stands: \<open>PreRendering\<close> until the promise of \<^verbatim>\<open>preRender\<close> settles, \<open>PostRendering el\<close>
  while \<^verbatim>\<open>await postRender(el)\<close> is pending, \<open>Settled\<close> once the chain has ended.
\<close>

datatype 'e phase = PreRendering | PostRendering 'e | Settled

record 'e run =
  rawPage :: string
  path :: string
  shouldReplaceContent :: bool
  phase :: "'e phase"

text \<open>
  The state of the hook: the state variable \<^verbatim>\<open>dom\<close>, the value of
  \<^verbatim>\<open>useShadowDomStylesLoading(dom)\<close>, every run started so far (a run's number is its index),
  the cleanup function React holds for the render effect (\<open>Some r\<close>: the closure of run \<open>r\<close>
  that clears its flag; \<open>None\<close>: no effect has run yet, or the last one returned
  \<^verbatim>\<open>() => {}\<close>), and the trace of effects so far.
\<close>

record ('e, 'w) hook_state =
  dom_state :: "'e option"
  isStyleLoading :: bool
  runs :: "'e run list"
  cleanup :: "nat option"
  trace :: "('e, 'w) action list"

text \<open>
  What React, the browser and the promise scheduler can do to the hook:
  \<^item> \<open>RenderEffect raw p\<close>: the render effect is executed anew with \<^verbatim>\<open>rawPage = raw\<close> and
    \<^verbatim>\<open>path = p\<close>; React first calls the cleanup of the previous execution;
  \<^item> \<open>PreRenderSettled r\<close>: the promise of \<^verbatim>\<open>preRender\<close> of run \<open>r\<close> settles, the
    \<^verbatim>\<open>then\<close> callback of line 231 runs up to its \<^verbatim>\<open>await\<close>;
  \<^item> \<open>PostRenderSettled r\<close>: the promise of \<^verbatim>\<open>postRender\<close> of run \<open>r\<close> settles, the
    callback resumes after the \<^verbatim>\<open>await\<close> of line 245;
  \<^item> \<open>Resize\<close>: the window fires \<^verbatim>\<open>resize\<close>, the listener of line 130 is called;
  \<^item> \<open>FooterEffect\<close>: the effect of lines 137-142 is executed;
  \<^item> \<open>StylesLoading b\<close>: \<^verbatim>\<open>useShadowDomStylesLoading\<close> now returns \<open>b\<close>.
  The transformers of a pipeline are recorded when its promise settles. The listener and the
  footer effect are the closures of the latest render, so they read the current
  \<^verbatim>\<open>dom\<close>. The events may come in any order: the settle events of a run are only
  enabled in the phase they belong to, and do nothing otherwise.
\<close>

datatype event =
    RenderEffect "string option" string
  | PreRenderSettled nat
  | PostRenderSettled nat
  | Resize
  | FooterEffect
  | StylesLoading bool

definition initial_state :: "('e, 'w) hook_state" where
  "initial_state =
     \<lparr>dom_state = None, isStyleLoading = False, runs = [], cleanup = None, trace = []\<rparr>"

text \<open>Lines 252-254: the cleanup closure of a run clears that run's flag.\<close>

definition run_cleanup :: "nat option \<Rightarrow> 'e run list \<Rightarrow> 'e run list" where
  "run_cleanup c rs =
     (case c of
        None \<Rightarrow> rs
      | Some r \<Rightarrow> if r < length rs then rs[r := (rs ! r)\<lparr>shouldReplaceContent := False\<rparr>] else rs)"

definition set_phase :: "nat \<Rightarrow> 'e phase \<Rightarrow> 'e run list \<Rightarrow> 'e run list" where
  "set_phase r ph rs = rs[r := (rs ! r)\<lparr>phase := ph\<rparr>]"

text \<open>Lines 225-228 and 252-254: the synchronous part of the render effect.\<close>

definition render_effect ::
  "string option \<Rightarrow> string \<Rightarrow> ('e, 'w) hook_state \<Rightarrow> ('e, 'w) hook_state" where
  "render_effect raw p s =
     (let rs = run_cleanup (cleanup s) (runs s) in
      case raw of
        None \<Rightarrow> s\<lparr>runs := rs, cleanup := None\<rparr>
      | Some content \<Rightarrow>
          if content = [] then s\<lparr>runs := rs, cleanup := None\<rparr>
          else s\<lparr>runs := rs @ [\<lparr>rawPage = content, path = p,
                                  shouldReplaceContent = True, phase = PreRendering\<rparr>],
                 cleanup := Some (length rs)\<rparr>)"

text \<open>Lines 231-245: the \<^verbatim>\<open>then\<close> callback up to the \<^verbatim>\<open>await\<close>.\<close>

definition pre_render_settled ::
  "('e, 'w) env \<Rightarrow> compound_entity_ref \<Rightarrow> nat \<Rightarrow> ('e, 'w) hook_state \<Rightarrow> ('e, 'w) hook_state" where
  "pre_render_settled E entityRef r s =
     (let this = runs s ! r;
          pre = preRender E entityRef (rawPage this) (path this);
          s1 = s\<lparr>trace := trace s @ map (Invoke r) (fst pre)\<rparr>
      in case snd pre of
           None \<Rightarrow> s1\<lparr>runs := set_phase r Settled (runs s)\<rparr>
         | Some preTransformedDomElement \<Rightarrow>
             if innerHTML E preTransformedDomElement = [] then
               s1\<lparr>runs := set_phase r Settled (runs s)\<rparr>
             else if \<not> shouldReplaceContent this then
               s1\<lparr>runs := set_phase r Settled (runs s)\<rparr>
             else
               s1\<lparr>trace := trace s1 @ [WindowScroll r 0],
                  runs := set_phase r (PostRendering preTransformedDomElement) (runs s)\<rparr>)"

text \<open>Lines 245-248: the callback after the \<^verbatim>\<open>await\<close>.\<close>

definition post_render_settled ::
  "('e, 'w) env \<Rightarrow> nat \<Rightarrow> 'e \<Rightarrow> ('e, 'w) hook_state \<Rightarrow> ('e, 'w) hook_state" where
  "post_render_settled E r preTransformedDomElement s =
     (let post = postRender E preTransformedDomElement;
          s1 = s\<lparr>trace := trace s @ map (Invoke r) (fst post),
                 runs := set_phase r Settled (runs s)\<rparr>
      in case snd post of
           None \<Rightarrow> s1
         | Some postTransformedDomElement \<Rightarrow>
             s1\<lparr>dom_state := Some postTransformedDomElement,
                trace := trace s1 @ [SetDom r postTransformedDomElement]\<rparr>)"

fun step ::
  "('e, 'w) env \<Rightarrow> compound_entity_ref \<Rightarrow> ('e, 'w) hook_state \<Rightarrow> event
    \<Rightarrow> ('e, 'w) hook_state" where
  "step E entityRef s (RenderEffect raw p) = render_effect raw p s"
| "step E entityRef s (PreRenderSettled r) =
     (if r < length (runs s) \<and> phase (runs s ! r) = PreRendering
      then pre_render_settled E entityRef r s else s)"
| "step E entityRef s (PostRenderSettled r) =
     (if r < length (runs s) then
        (case phase (runs s ! r) of
           PostRendering el \<Rightarrow> post_render_settled E r el s
         | _ \<Rightarrow> s)
      else s)"
| "step E entityRef s Resize =
     s\<lparr>trace := trace s @ updateFooterWidth E (dom_state s)\<rparr>"
| "step E entityRef s FooterEffect =
     (if \<not> isStyleLoading s
      then s\<lparr>trace := trace s @ updateFooterWidth E (dom_state s)\<rparr> else s)"
| "step E entityRef s (StylesLoading b) = s\<lparr>isStyleLoading := b\<rparr>"

fun exec ::
  "('e, 'w) env \<Rightarrow> compound_entity_ref \<Rightarrow> ('e, 'w) hook_state \<Rightarrow> event list
    \<Rightarrow> ('e, 'w) hook_state" where
  "exec E entityRef s [] = s"
| "exec E entityRef s (ev # evs) = exec E entityRef (step E entityRef s ev) evs"

text \<open>The entries of a trace that one run caused.\<close>

fun action_run :: "('e, 'w) action \<Rightarrow> nat option" where
  "action_run (Invoke r t) = Some r"
| "action_run (WindowScroll r n) = Some r"
| "action_run (SetDom r el) = Some r"
| "action_run a = None"

definition run_actions :: "nat \<Rightarrow> ('e, 'w) action list \<Rightarrow> ('e, 'w) action list" where
  "run_actions r as = filter (\<lambda>a. action_run a = Some r) as"

text \<open>The transformers one run called, in call order.\<close>

fun invoked :: "nat \<Rightarrow> ('e, 'w) action list \<Rightarrow> 'e transformer list" where
  "invoked r [] = []"
| "invoked r (Invoke r' t # as) = (if r' = r then t # invoked r as else invoked r as)"
| "invoked r (a # as) = invoked r as"

text \<open>
  What a run leaves in the trace from its commit on when nothing stops it: the scroll, the
  post-render calls and, if \<^verbatim>\<open>postRender\<close> resolves, the \<^verbatim>\<open>setDom\<close>.
\<close>

definition committed_script :: "('e, 'w) env \<Rightarrow> nat \<Rightarrow> 'e \<Rightarrow> ('e, 'w) action list" where
  "committed_script E r el =
     WindowScroll r 0 # map (Invoke r) (fst (postRender E el)) @
       (case snd (postRender E el) of None \<Rightarrow> [] | Some el' \<Rightarrow> [SetDom r el'])"

text \<open>
  The invariant of the machine. For each run, its part of the trace is determined by its
  phase: nothing while it pre-renders; the pre-render calls and the scroll while it
  post-renders; once settled, either the pre-render calls alone or those followed by the
  committed script. Every numbered entry of the trace belongs to a run that exists, and so
  does the cleanup React holds.
\<close>

definition run_inv ::
  "('e, 'w) env \<Rightarrow> compound_entity_ref \<Rightarrow> nat \<Rightarrow> 'e run \<Rightarrow> ('e, 'w) action list \<Rightarrow> bool" where
  "run_inv E entityRef r this as =
     (let pre = preRender E entityRef (rawPage this) (path this);
          called = map (Invoke r) (fst pre)
      in case phase this of
           PreRendering \<Rightarrow> as = []
         | PostRendering el \<Rightarrow>
             snd pre = Some el \<and> innerHTML E el \<noteq> [] \<and> as = called @ [WindowScroll r 0]
         | Settled \<Rightarrow>
             as = called \<or>
             (\<exists>el. snd pre = Some el \<and> innerHTML E el \<noteq> []
                   \<and> as = called @ committed_script E r el))"

definition hook_inv ::
  "('e, 'w) env \<Rightarrow> compound_entity_ref \<Rightarrow> ('e, 'w) hook_state \<Rightarrow> bool" where
  "hook_inv E entityRef s =
     ((\<forall>r < length (runs s). run_inv E entityRef r (runs s ! r) (run_actions r (trace s)))
      \<and> (\<forall>a \<in> set (trace s). \<forall>r. action_run a = Some r \<longrightarrow> r < length (runs s))
      \<and> (\<forall>r. cleanup s = Some r \<longrightarrow> r < length (runs s)))"

subsection \<open>A concrete page\<close>

text \<open>
  A small browser for running the definitions: an element is its markup, parsing drops the
  blanks of the raw page, every transformer appends one letter to markup that is not empty,
  a selector finds the footer and the section \<^verbatim>\<open>intro\<close> and nothing else, and the hash of
  a URL is what starts at its first \<^verbatim>\<open>#\<close>.
\<close>

fun letter :: "string transformer \<Rightarrow> string" where
  "letter sanitizerTransformer = ''s''"
| "letter (addBaseUrl e p) = ''b''"
| "letter rewriteDocLinks = ''r''"
| "letter addSidebarToggle = ''t''"
| "letter removeMkdocsHeader = ''h''"
| "letter simplifyMkdocsFooter = ''f''"
| "letter addGitFeedbackLink = ''g''"
| "letter stylesTransformer = ''y''"
| "letter scrollIntoAnchor = ''A''"
| "letter scrollIntoNavigation = ''N''"
| "letter copyToClipboard = ''C''"
| "letter (addLinkClickListener b el) = ''L''"
| "letter (onCssReady el) = ''R''"

definition hash_of :: "string \<Rightarrow> string" where
  "hash_of u =
     (let h = dropWhile (\<lambda>c. c \<noteq> CHR ''#'') u in if length h \<le> 1 then [] else h)"

definition page_env :: "(string, nat) env" where
  "page_env =
     \<lparr>parseFromString = filter (\<lambda>c. c \<noteq> CHR '' ''),
      applyTransformer = (\<lambda>t d. if d = [] then Some [] else Some (d @ letter t)),
      innerHTML = (\<lambda>d. d),
      innerText = (\<lambda>d. d),
      querySelector =
        (\<lambda>d sel. if sel = ''.md-footer'' \<or> sel = ''[id='' @ [CHR 0x22] @ ''intro'' @ [CHR 0x22] @ '']''
                 then Some (d @ '' '' @ sel) else None),
      boundingWidth = (\<lambda>d. 100 * length d),
      origin = ''http://localhost:3000'',
      newURL = (\<lambda>u. if prefix ''http'' u then Some \<lparr>hash = hash_of u\<rparr> else None)\<rparr>"

definition docs_entity :: compound_entity_ref where
  "docs_entity = \<lparr>kind = ''component'', namespace = ''default'', name = ''docs''\<rparr>"

text \<open>
  Three clicks for the examples: a plain one on a link with the text \<^verbatim>\<open>Intro\<close>, one with
  the meta key, and a plain one that lands on the \<^verbatim>\<open>foo\<close> inside a link whose text is
  \<^verbatim>\<open>foo bar\<close>.
\<close>

definition plain_click :: "string mouse_event" where
  "plain_click =
     \<lparr>ctrlKey = False, metaKey = False, target = Some ''Intro'', currentTarget = ''Intro''\<rparr>"

definition meta_click :: "string mouse_event" where
  "meta_click =
     \<lparr>ctrlKey = False, metaKey = True, target = None, currentTarget = ''Intro''\<rparr>"


text \<open>A page is mounted, then its styles start loading.\<close>

definition mounted_and_loading :: "event list" where
  "mounted_and_loading =
     [RenderEffect (Some ''page'') ''guide'', PreRenderSettled 0, PostRenderSettled 0,
      StylesLoading True]"

text \<open>
  A first request commits and is post-rendering when a second request starts; then the
  first request's \<^verbatim>\<open>postRender\<close> resolves.
\<close>

definition overtaken_request :: "event list" where
  "overtaken_request =
     [RenderEffect (Some ''old'') ''a'', PreRenderSettled 0, RenderEffect (Some ''new'') ''b'']"

text \<open>A page is mounted, then a request arrives whose raw page is one blank.\<close>

definition blank_after_mount :: "event list" where
  "blank_after_mount =
     [RenderEffect (Some ''page'') ''guide'', PreRenderSettled 0, PostRenderSettled 0,
      RenderEffect (Some '' '') ''other'']"

text \<open>One request has started.\<close>

definition one_request :: "event list" where
  "one_request = [RenderEffect (Some ''page'') ''guide'']"


section \<open>Properties\<close>

subsection \<open>Helper lemmas\<close>


lemma transform_called_prefix: "prefix (fst (transform E d ts)) ts"
  by (induction ts arbitrary: d) (auto split: option.splits simp: split_beta)

lemma transform_resolved_all: "snd (transform E d ts) = Some out \<Longrightarrow> fst (transform E d ts) = ts"
  by (induction ts arbitrary: d) (auto split: option.splits simp: split_beta)

subsection \<open>The invariant of the state machine\<close>

lemma run_actions_append [simp]: "run_actions r (as @ bs) = run_actions r as @ run_actions r bs"
  by (simp add: run_actions_def)

lemma run_actions_Invoke:
  "run_actions r (map (Invoke r') ts) = (if r = r' then map (Invoke r') ts else [])"
  by (induction ts) (auto simp: run_actions_def)

lemma run_actions_fresh:
  "\<forall>a \<in> set as. \<forall>r'. action_run a = Some r' \<longrightarrow> r' < n \<Longrightarrow> n \<le> r \<Longrightarrow> run_actions r as = []"
  by (induction as) (auto simp: run_actions_def)

lemma updateFooterWidth_unnumbered:
  "a \<in> set (updateFooterWidth E d) \<Longrightarrow> action_run a = None"
  by (auto simp: updateFooterWidth_def split: option.splits)

lemma run_actions_updateFooterWidth [simp]: "run_actions r (updateFooterWidth E d) = []"
  by (auto simp: updateFooterWidth_def run_actions_def split: option.splits)

lemma length_run_cleanup [simp]: "length (run_cleanup c rs) = length rs"
  by (simp add: run_cleanup_def split: option.splits)

lemma nth_run_cleanup:
  "r < length rs \<Longrightarrow>
     rawPage (run_cleanup c rs ! r) = rawPage (rs ! r)
     \<and> path (run_cleanup c rs ! r) = path (rs ! r)
     \<and> phase (run_cleanup c rs ! r) = phase (rs ! r)"
  by (auto simp: run_cleanup_def nth_list_update split: option.splits)

lemma length_set_phase [simp]: "length (set_phase r ph rs) = length rs"
  by (simp add: set_phase_def)

lemma nth_set_phase:
  "r' < length rs \<Longrightarrow>
     set_phase r ph rs ! r' = (if r' = r then (rs ! r)\<lparr>phase := ph\<rparr> else rs ! r')"
  by (simp add: set_phase_def nth_list_update)

lemma run_inv_flag:
  "rawPage a = rawPage b \<Longrightarrow> path a = path b \<Longrightarrow> phase a = phase b \<Longrightarrow>
     run_inv E ent r a as = run_inv E ent r b as"
  by (simp add: run_inv_def Let_def)

lemma hook_inv_initial: "hook_inv E ent initial_state"
  by (simp add: hook_inv_def initial_state_def)


lemma run_actions_Nil [simp]: "run_actions r [] = []"
  by (simp add: run_actions_def)

lemma run_actions_single:
  "run_actions r [a] = (if action_run a = Some r then [a] else [])"
  by (simp add: run_actions_def)

lemma hook_inv_render_effect:
  assumes "hook_inv E ent s"
  shows "hook_inv E ent (render_effect raw p s)"
proof -
  let ?rs = "run_cleanup (cleanup s) (runs s)"
  have old: "run_inv E ent r (?rs ! r) (run_actions r (trace s))" if "r < length (runs s)" for r
  proof -
    from assms that have "run_inv E ent r (runs s ! r) (run_actions r (trace s))"
      by (simp add: hook_inv_def)
    moreover have "run_inv E ent r (?rs ! r) (run_actions r (trace s))
        = run_inv E ent r (runs s ! r) (run_actions r (trace s))"
      using nth_run_cleanup [OF that, of "cleanup s"] by (intro run_inv_flag) simp_all
    ultimately show ?thesis by simp
  qed
  have numbered: "\<forall>a \<in> set (trace s). \<forall>r. action_run a = Some r \<longrightarrow> r < length (runs s)"
    using assms by (simp add: hook_inv_def)
  have fresh: "run_actions (length (runs s)) (trace s) = []"
    using run_actions_fresh [OF numbered] by simp
  show ?thesis
  proof (cases "raw = None \<or> raw = Some []")
    case True
    then have "render_effect raw p s = s\<lparr>runs := ?rs, cleanup := None\<rparr>"
      by (auto simp: render_effect_def)
    then show ?thesis
      using old numbered by (simp add: hook_inv_def)
  next
    case False
    then obtain content where raw: "raw = Some content" "content \<noteq> []"
      by auto
    let ?new = "\<lparr>rawPage = content, path = p, shouldReplaceContent = True, phase = PreRendering\<rparr>"
    have eq: "render_effect raw p s = s\<lparr>runs := ?rs @ [?new], cleanup := Some (length ?rs)\<rparr>"
      using raw by (simp add: render_effect_def)
    have "run_inv E ent r ((?rs @ [?new]) ! r) (run_actions r (trace s))"
      if "r < Suc (length (runs s))" for r
    proof (cases "r < length (runs s)")
      case True
      then show ?thesis using old [OF True] by (simp add: nth_append)
    next
      case False
      with that have "r = length (runs s)" by simp
      then show ?thesis using fresh by (simp add: nth_append run_inv_def Let_def)
    qed
    then show ?thesis
      unfolding eq using numbered by (auto simp: hook_inv_def less_Suc_eq)
  qed
qed

lemma hook_inv_pre_render_settled:
  assumes inv: "hook_inv E ent s" and r: "r < length (runs s)"
    and ph: "phase (runs s ! r) = PreRendering"
  shows "hook_inv E ent (pre_render_settled E ent r s)"
proof -
  let ?run = "runs s ! r"
  let ?pre = "preRender E ent (rawPage ?run) (path ?run)"
  let ?called = "map (Invoke r) (fst ?pre)"
  have "run_inv E ent r ?run (run_actions r (trace s))"
    using inv r by (simp add: hook_inv_def)
  then have none_yet: "run_actions r (trace s) = []"
    using ph by (simp add: run_inv_def Let_def)
  have numbered: "\<forall>a \<in> set (trace s). \<forall>r'. action_run a = Some r' \<longrightarrow> r' < length (runs s)"
    using inv by (simp add: hook_inv_def)
  have cl: "\<forall>r'. cleanup s = Some r' \<longrightarrow> r' < length (runs s)"
    using inv by (simp add: hook_inv_def)
  have others: "run_inv E ent r' (runs s ! r') (run_actions r' (trace s))"
    if "r' < length (runs s)" for r'
    using inv that by (simp add: hook_inv_def)
  have unfolded: "pre_render_settled E ent r s =
      (case snd ?pre of
         None \<Rightarrow> s\<lparr>trace := trace s @ ?called, runs := set_phase r Settled (runs s)\<rparr>
       | Some el \<Rightarrow>
           if innerHTML E el = [] \<or> \<not> shouldReplaceContent ?run
           then s\<lparr>trace := trace s @ ?called, runs := set_phase r Settled (runs s)\<rparr>
           else s\<lparr>trace := trace s @ ?called @ [WindowScroll r 0],
                  runs := set_phase r (PostRendering el) (runs s)\<rparr>)"
    by (simp add: pre_render_settled_def Let_def split: option.splits)
  consider (settle) "pre_render_settled E ent r s =
        s\<lparr>trace := trace s @ ?called, runs := set_phase r Settled (runs s)\<rparr>"
    | (commit) el where "snd ?pre = Some el" "innerHTML E el \<noteq> []"
        "pre_render_settled E ent r s =
          s\<lparr>trace := trace s @ ?called @ [WindowScroll r 0],
             runs := set_phase r (PostRendering el) (runs s)\<rparr>"
  proof (cases "snd ?pre")
    case None
    then show ?thesis using settle unfolded by simp
  next
    case (Some el)
    show ?thesis
    proof (cases "innerHTML E el = [] \<or> \<not> shouldReplaceContent ?run")
      case True
      then show ?thesis using settle unfolded Some by simp
    next
      case False
      then show ?thesis using commit [of el] unfolded Some by simp
    qed
  qed
  then show ?thesis
  proof cases
    case settle
    have "run_inv E ent r' (set_phase r Settled (runs s) ! r') (run_actions r' (trace s @ ?called))"
      if "r' < length (runs s)" for r'
    proof (cases "r' = r")
      case True
      then show ?thesis
        using that none_yet by (simp add: nth_set_phase run_actions_Invoke run_inv_def Let_def)
    next
      case False
      then show ?thesis
        using that others [OF that] by (simp add: nth_set_phase run_actions_Invoke)
    qed
    then show ?thesis
      unfolding settle using numbered cl r by (auto simp: hook_inv_def)
  next
    case commit
    have "run_inv E ent r' (set_phase r (PostRendering el) (runs s) ! r')
            (run_actions r' (trace s @ ?called @ [WindowScroll r 0]))"
      if "r' < length (runs s)" for r'
    proof (cases "r' = r")
      case True
      then show ?thesis
        using that none_yet commit(1,2)
        by (simp add: nth_set_phase run_actions_Invoke run_actions_single run_inv_def Let_def)
    next
      case False
      then show ?thesis
        using that others [OF that]
        by (simp add: nth_set_phase run_actions_Invoke run_actions_single)
    qed
    then show ?thesis
      unfolding commit(3) using numbered cl r by (auto simp: hook_inv_def)
  qed
qed

lemma hook_inv_post_render_settled:
  assumes inv: "hook_inv E ent s" and r: "r < length (runs s)"
    and ph: "phase (runs s ! r) = PostRendering el"
  shows "hook_inv E ent (post_render_settled E r el s)"
proof -
  let ?run = "runs s ! r"
  let ?pre = "preRender E ent (rawPage ?run) (path ?run)"
  let ?called = "map (Invoke r) (fst ?pre)"
  let ?post = "postRender E el"
  let ?tail = "map (Invoke r) (fst ?post) @
     (case snd ?post of None \<Rightarrow> [] | Some el' \<Rightarrow> [SetDom r el'])"
  have "run_inv E ent r ?run (run_actions r (trace s))"
    using inv r by (simp add: hook_inv_def)
  then have before: "snd ?pre = Some el" "innerHTML E el \<noteq> []"
      "run_actions r (trace s) = ?called @ [WindowScroll r 0]"
    using ph by (simp_all add: run_inv_def Let_def)
  have numbered: "\<forall>a \<in> set (trace s). \<forall>r'. action_run a = Some r' \<longrightarrow> r' < length (runs s)"
    using inv by (simp add: hook_inv_def)
  have cl: "\<forall>r'. cleanup s = Some r' \<longrightarrow> r' < length (runs s)"
    using inv by (simp add: hook_inv_def)
  have others: "run_inv E ent r' (runs s ! r') (run_actions r' (trace s))"
    if "r' < length (runs s)" for r'
    using inv that by (simp add: hook_inv_def)
  have tr: "trace (post_render_settled E r el s) = trace s @ ?tail"
    and rs: "runs (post_render_settled E r el s) = set_phase r Settled (runs s)"
    and cu: "cleanup (post_render_settled E r el s) = cleanup s"
    by (simp_all add: post_render_settled_def Let_def split: option.splits)
  have tail_r: "run_actions r ?tail = ?tail"
    by (simp add: run_actions_Invoke run_actions_single split: option.splits)
  have tail_other: "run_actions r' ?tail = []" if "r' \<noteq> r" for r'
    using that by (simp add: run_actions_Invoke run_actions_single split: option.splits)
  have "run_inv E ent r' (set_phase r Settled (runs s) ! r') (run_actions r' (trace s @ ?tail))"
    if "r' < length (runs s)" for r'
  proof (cases "r' = r")
    case True
    have "run_actions r (trace s @ ?tail) = run_actions r (trace s) @ ?tail"
      by (simp add: run_actions_Invoke run_actions_single split: option.splits)
    then have "run_actions r (trace s @ ?tail) = ?called @ committed_script E r el"
      using before(3) by (simp add: committed_script_def)
    then show ?thesis
      using True that before(1,2) by (simp add: nth_set_phase run_inv_def Let_def)
  next
    case False
    have "run_actions r' (trace s @ ?tail) = run_actions r' (trace s)"
      using False by (simp add: run_actions_Invoke run_actions_single split: option.splits)
    then show ?thesis
      using False that others [OF that] by (simp add: nth_set_phase)
  qed
  moreover have "\<forall>a \<in> set ?tail. \<forall>r'. action_run a = Some r' \<longrightarrow> r' < length (runs s)"
    using r by (auto split: option.splits)
  ultimately show ?thesis
    using numbered cl by (auto simp: hook_inv_def tr rs cu)
qed

lemma hook_inv_step:
  assumes "hook_inv E ent s"
  shows "hook_inv E ent (step E ent s ev)"
proof (cases ev)
  case (RenderEffect raw p)
  then show ?thesis using assms by (simp add: hook_inv_render_effect)
next
  case (PreRenderSettled r)
  then show ?thesis using assms by (simp add: hook_inv_pre_render_settled)
next
  case (PostRenderSettled r)
  then show ?thesis using assms
    by (auto simp: hook_inv_post_render_settled split: phase.splits)
next
  case Resize
  then show ?thesis using assms
    by (auto simp: hook_inv_def dest: updateFooterWidth_unnumbered)
next
  case FooterEffect
  then show ?thesis using assms
    by (auto simp: hook_inv_def dest: updateFooterWidth_unnumbered)
next
  case (StylesLoading b)
  then show ?thesis using assms by (simp add: hook_inv_def)
qed

lemma hook_inv_exec: "hook_inv E ent s \<Longrightarrow> hook_inv E ent (exec E ent s evs)"
  by (induction evs arbitrary: s) (simp_all add: hook_inv_step)

subsection \<open>What a step keeps\<close>

lemma step_runs_length: "length (runs s) \<le> length (runs (step E ent s ev))"
  by (cases ev)
    (auto simp: render_effect_def pre_render_settled_def post_render_settled_def Let_def
      split: option.splits phase.splits)

lemma step_run_static:
  "r < length (runs s) \<Longrightarrow>
     rawPage (runs (step E ent s ev) ! r) = rawPage (runs s ! r)
     \<and> path (runs (step E ent s ev) ! r) = path (runs s ! r)"
  by (cases ev)
    (auto simp: render_effect_def pre_render_settled_def post_render_settled_def Let_def
      nth_append nth_run_cleanup nth_set_phase split: option.splits phase.splits)

lemma step_phase_forward:
  "r < length (runs s) \<Longrightarrow> phase (runs s ! r) \<noteq> PreRendering \<Longrightarrow>
     phase (runs (step E ent s ev) ! r) \<noteq> PreRendering"
  by (cases ev)
    (auto simp: render_effect_def pre_render_settled_def post_render_settled_def Let_def
      nth_append nth_run_cleanup nth_set_phase split: option.splits phase.splits)

lemma step_settled:
  "r < length (runs s) \<Longrightarrow> phase (runs s ! r) = Settled \<Longrightarrow>
     phase (runs (step E ent s ev) ! r) = Settled
     \<and> run_actions r (trace (step E ent s ev)) = run_actions r (trace s)"
  by (cases ev)
    (auto simp: render_effect_def pre_render_settled_def post_render_settled_def Let_def
      nth_append nth_run_cleanup nth_set_phase run_actions_Invoke run_actions_single
      split: option.splits phase.splits)

lemma step_trace_prefix: "prefix (trace s) (trace (step E ent s ev))"
  by (cases ev)
    (auto simp: render_effect_def pre_render_settled_def post_render_settled_def Let_def
      split: option.splits phase.splits)

lemma exec_runs_length: "length (runs s) \<le> length (runs (exec E ent s evs))"
proof (induction evs arbitrary: s)
  case Nil
  show ?case by simp
next
  case (Cons ev evs)
  from step_runs_length [of s E ent ev] Cons [of "step E ent s ev"]
  show ?case by simp
qed

lemma exec_run_static:
  "r < length (runs s) \<Longrightarrow>
     rawPage (runs (exec E ent s evs) ! r) = rawPage (runs s ! r)
     \<and> path (runs (exec E ent s evs) ! r) = path (runs s ! r)"
proof (induction evs arbitrary: s)
  case Nil
  show ?case by simp
next
  case (Cons ev evs)
  have "r < length (runs (step E ent s ev))"
    using Cons.prems step_runs_length [of s E ent ev] by simp
  from Cons.IH [OF this] step_run_static [OF Cons.prems, of E ent ev]
  show ?case by simp
qed

lemma exec_phase_forward:
  "r < length (runs s) \<Longrightarrow> phase (runs s ! r) \<noteq> PreRendering \<Longrightarrow>
     phase (runs (exec E ent s evs) ! r) \<noteq> PreRendering"
proof (induction evs arbitrary: s)
  case Nil
  then show ?case by simp
next
  case (Cons ev evs)
  have "r < length (runs (step E ent s ev))"
    using Cons.prems(1) step_runs_length [of s E ent ev] by simp
  from Cons.IH [OF this step_phase_forward [OF Cons.prems, of E ent ev]]
  show ?case by simp
qed

lemma exec_settled:
  "r < length (runs s) \<Longrightarrow> phase (runs s ! r) = Settled \<Longrightarrow>
     phase (runs (exec E ent s evs) ! r) = Settled
     \<and> run_actions r (trace (exec E ent s evs)) = run_actions r (trace s)"
proof (induction evs arbitrary: s)
  case Nil
  then show ?case by simp
next
  case (Cons ev evs)
  have len: "r < length (runs (step E ent s ev))"
    using Cons.prems(1) step_runs_length [of s E ent ev] by simp
  note one = step_settled [OF Cons.prems, of E ent ev]
  from Cons.IH [OF len] one show ?case by simp
qed

lemma exec_trace_prefix: "prefix (trace s) (trace (exec E ent s evs))"
proof (induction evs arbitrary: s)
  case Nil
  show ?case by simp
next
  case (Cons ev evs)
  from step_trace_prefix [of s E ent ev] Cons [of "step E ent s ev"]
  show ?case by (auto intro: prefix_order.trans)
qed

lemma run_actions_prefix: "prefix as bs \<Longrightarrow> prefix (run_actions r as) (run_actions r bs)"
  by (auto simp: prefix_def)

lemma invoked_append [simp]: "invoked r (as @ bs) = invoked r as @ invoked r bs"
  by (induction r as rule: invoked.induct) simp_all

lemma invoked_Invoke [simp]: "invoked r (map (Invoke r) ts) = ts"
  by (induction ts) simp_all

lemma invoked_run_actions: "invoked r (run_actions r as) = invoked r as"
  by (induction r as rule: invoked.induct) (simp_all add: run_actions_def)

lemma invoked_committed_script:
  "invoked r (committed_script E r el) = fst (postRender E el)"
  by (simp add: committed_script_def split: option.splits)

lemma hook_inv_reachable: "hook_inv E ent (exec E ent initial_state evs)"
  by (simp add: hook_inv_exec hook_inv_initial)

subsection \<open>The two settle steps, and the concrete page\<close>

lemma pre_render_settled_empty:
  assumes "snd (preRender E ent (rawPage (runs s ! r)) (path (runs s ! r))) = Some el"
    and "innerHTML E el = []"
  shows "pre_render_settled E ent r s =
           s\<lparr>trace := trace s @ map (Invoke r) (preRender_transformers ent (path (runs s ! r))),
              runs := set_phase r Settled (runs s)\<rparr>"
proof -
  have "fst (preRender E ent (rawPage (runs s ! r)) (path (runs s ! r)))
          = preRender_transformers ent (path (runs s ! r))"
    using assms(1) transform_resolved_all by (fastforce simp: preRender_def)
  then show ?thesis
    using assms by (simp add: pre_render_settled_def Let_def)
qed

lemma pre_render_settled_commit:
  assumes "snd (preRender E ent (rawPage (runs s ! r)) (path (runs s ! r))) = Some el"
    and "innerHTML E el \<noteq> []" and "shouldReplaceContent (runs s ! r)"
  shows "pre_render_settled E ent r s =
           s\<lparr>trace := trace s @ map (Invoke r) (preRender_transformers ent (path (runs s ! r)))
                        @ [WindowScroll r 0],
              runs := set_phase r (PostRendering el) (runs s)\<rparr>"
proof -
  have "fst (preRender E ent (rawPage (runs s ! r)) (path (runs s ! r)))
          = preRender_transformers ent (path (runs s ! r))"
    using assms(1) transform_resolved_all by (fastforce simp: preRender_def)
  then show ?thesis
    using assms by (simp add: pre_render_settled_def Let_def)
qed

lemmas machine_defs =
  initial_state_def render_effect_def run_cleanup_def set_phase_def pre_render_settled_def
  post_render_settled_def preRender_def preRender_transformers_def postRender_def
  postRender_transformers_def page_env_def updateFooterWidth_def Let_def

lemma blank_state:
  "exec page_env docs_entity initial_state blank_after_mount =
     \<lparr>dom_state = Some ''pagesbrthfgyANCLR'', isStyleLoading = False,
      runs = [\<lparr>rawPage = ''page'', path = ''guide'', shouldReplaceContent = False, phase = Settled\<rparr>,
              \<lparr>rawPage = '' '', path = ''other'', shouldReplaceContent = True, phase = PreRendering\<rparr>],
      cleanup = Some 1,
      trace = map (Invoke 0) (preRender_transformers docs_entity ''guide'')
               @ [WindowScroll 0 0]
               @ map (Invoke 0) (postRender_transformers page_env ''pagesbrthfgy'')
               @ [SetDom 0 ''pagesbrthfgyANCLR'']\<rparr>"
  by (simp add: blank_after_mount_def machine_defs)


lemma one_request_state:
  "exec page_env docs_entity initial_state one_request =
     \<lparr>dom_state = None, isStyleLoading = False,
      runs = [\<lparr>rawPage = ''page'', path = ''guide'', shouldReplaceContent = True,
               phase = PreRendering\<rparr>],
      cleanup = Some 0, trace = []\<rparr>"
  by (simp add: one_request_def machine_defs)

lemma mounted_and_loading_state:
  "exec page_env docs_entity initial_state mounted_and_loading =
     \<lparr>dom_state = Some ''pagesbrthfgyANCLR'', isStyleLoading = True,
      runs = [\<lparr>rawPage = ''page'', path = ''guide'', shouldReplaceContent = True,
               phase = Settled\<rparr>],
      cleanup = Some 0,
      trace = map (Invoke 0) (preRender_transformers docs_entity ''guide'')
               @ [WindowScroll 0 0]
               @ map (Invoke 0) (postRender_transformers page_env ''pagesbrthfgy'')
               @ [SetDom 0 ''pagesbrthfgyANCLR'']\<rparr>"
  by (simp add: mounted_and_loading_def machine_defs)

subsection \<open>A run superseded before it commits\<close>

text \<open>
  What the flag does guarantee: a run whose flag is cleared while it still pre-renders never
  scrolls and never calls \<^verbatim>\<open>setDom\<close>.
\<close>

lemma nth_run_cleanup_flag:
  "r < length rs \<Longrightarrow> \<not> shouldReplaceContent (rs ! r) \<Longrightarrow>
     \<not> shouldReplaceContent (run_cleanup c rs ! r)"
  by (auto simp: run_cleanup_def nth_list_update split: option.splits)

lemma step_superseded:
  assumes "r < length (runs s)" and "\<not> shouldReplaceContent (runs s ! r)"
    and "phase (runs s ! r) = PreRendering \<or> phase (runs s ! r) = Settled"
  shows "r < length (runs (step E ent s ev))
       \<and> \<not> shouldReplaceContent (runs (step E ent s ev) ! r)
       \<and> (phase (runs (step E ent s ev) ! r) = PreRendering
            \<or> phase (runs (step E ent s ev) ! r) = Settled)
       \<and> (SetDom r out \<in> set (trace (step E ent s ev)) \<longrightarrow> SetDom r out \<in> set (trace s))
       \<and> (WindowScroll r n \<in> set (trace (step E ent s ev)) \<longrightarrow>
            WindowScroll r n \<in> set (trace s))"
proof (cases ev)
  case (RenderEffect raw p)
  then show ?thesis
    using assms nth_run_cleanup [OF assms(1), of "cleanup s"]
      nth_run_cleanup_flag [OF assms(1,2), of "cleanup s"]
    by (auto simp: render_effect_def Let_def nth_append split: option.splits)
next
  case (PreRenderSettled r')
  then show ?thesis
    using assms
    by (auto simp: pre_render_settled_def Let_def nth_set_phase split: option.splits)
next
  case (PostRenderSettled r')
  then show ?thesis
    using assms
    by (auto simp: post_render_settled_def Let_def nth_set_phase
        split: option.splits phase.splits)
next
  case Resize
  then show ?thesis
    using assms by (auto dest: updateFooterWidth_unnumbered)
next
  case FooterEffect
  then show ?thesis
    using assms by (auto dest: updateFooterWidth_unnumbered)
next
  case (StylesLoading b)
  then show ?thesis using assms by simp
qed

lemma superseded_before_commit_never_mounts:
  assumes "r < length (runs s)" and "\<not> shouldReplaceContent (runs s ! r)"
    and "phase (runs s ! r) = PreRendering \<or> phase (runs s ! r) = Settled"
  shows "(SetDom r out \<in> set (trace (exec E ent s evs)) \<longrightarrow> SetDom r out \<in> set (trace s))
       \<and> (WindowScroll r n \<in> set (trace (exec E ent s evs)) \<longrightarrow>
            WindowScroll r n \<in> set (trace s))"
  using assms
proof (induction evs arbitrary: s)
  case Nil
  show ?case by simp
next
  case (Cons ev evs)
  note one = step_superseded [OF Cons.prems, of E ent ev out n]
  from one have "r < length (runs (step E ent s ev))"
    and "\<not> shouldReplaceContent (runs (step E ent s ev) ! r)"
    and "phase (runs (step E ent s ev) ! r) = PreRendering
          \<or> phase (runs (step E ent s ev) ! r) = Settled"
    by blast+
  from Cons.IH [OF this] one show ?case
    by (simp del: step.simps)
qed


subsection \<open>The plugin descriptor\<close>

text \<open>
  C9. Whatever the imported references are, evaluating the module ends without an exception
  and exports one plugin and one extension. The plugin has the id \<^verbatim>\<open>todo\<close>, exactly one
  API factory (for \<^verbatim>\<open>todoApiRef\<close>, with no dependencies, whose factory returns
  \<^verbatim>\<open>new TodoClient()\<close>) and the one route \<^verbatim>\<open>root\<close>, bound to \<^verbatim>\<open>rootRouteRef\<close>. The
  extension is provided by that plugin, loads \<^verbatim>\<open>ExampleComponent\<close> and is mounted at
  \<^verbatim>\<open>rootRouteRef\<close>, the route the plugin calls \<^verbatim>\<open>root\<close>.
\<close>

theorem todoPlugin_descriptor:
  "\<exists>exports.
     load_plugin_module todoApiRef newTodoClient rootRouteRef ExampleComponent = Inr exports
     \<and> id_plugin (todoPlugin exports) = ''todo''
     \<and> map api (apis (todoPlugin exports)) = [todoApiRef]
     \<and> map deps (apis (todoPlugin exports)) = [[]]
     \<and> map (\<lambda>f. factory f ()) (apis (todoPlugin exports)) = [newTodoClient ()]
     \<and> routes (todoPlugin exports) = [(''root'', rootRouteRef)]
     \<and> provider (EntityTodoContent exports) = id_plugin (todoPlugin exports)
     \<and> component_loader (extension (EntityTodoContent exports)) () = ExampleComponent
     \<and> mountPoint (extension (EntityTodoContent exports)) = rootRouteRef
     \<and> map_of (routes (todoPlugin exports)) ''root''
         = Some (mountPoint (extension (EntityTodoContent exports)))"
  by (simp add: load_plugin_module_def createApiFactory_def createPlugin_def
      createRoutableExtension_def provide_def)

subsection \<open>The click handler\<close>

text \<open>
  C4. A click on a link whose parsed URL has the hash \<^verbatim>\<open>#section-id\<close>. Without control and
  meta the handler reports the click, calls \<^verbatim>\<open>navigate\<close> with the whole URL and then
  \<^verbatim>\<open>scrollIntoView\<close> on the element that \<^verbatim>\<open>[id="section-id"]\<close> selects inside the
  transformed element; when the page has no such element the navigation is all it does. With
  control or meta it reports the click and calls \<^verbatim>\<open>window.open(url, '_blank')\<close>, and
  \<^verbatim>\<open>navigate\<close> is not called, whether the page has the section or not.
\<close>

theorem onClick_fragment:
  assumes "newURL E url = Some parsedUrl"
    and "hash parsedUrl = CHR ''#'' # section_id"
  shows "(\<not> ctrlKey ev \<and> \<not> metaKey ev \<longrightarrow>
            onClick E el ev url =
              Inr ([CaptureEvent ''click'' (link_text E ev url)
                      (string_replace (origin E) [] url),
                    Navigate url]
                   @ (case querySelector E el
                             (''[id='' @ [CHR 0x22] @ section_id @ [CHR 0x22] @ '']'') of
                        None \<Rightarrow> []
                      | Some section \<Rightarrow> [ScrollIntoView section])))
       \<and> (ctrlKey ev \<or> metaKey ev \<longrightarrow>
            onClick E el ev url =
              Inr [CaptureEvent ''click'' (link_text E ev url) (string_replace (origin E) [] url),
                   WindowOpen url ''_blank''])"
  using assms by (simp add: onClick_def id_selector_def)

theorem onClick_fragment_witness:
  "newURL page_env ''http://localhost:3000/docs#intro'' = Some \<lparr>hash = ''#intro''\<rparr>
   \<and> newURL page_env ''http://localhost:3000/docs#other'' = Some \<lparr>hash = ''#other''\<rparr>
   \<and> onClick page_env ''page'' plain_click ''http://localhost:3000/docs#intro'' =
       Inr [CaptureEvent ''click'' ''Intro'' ''/docs#intro'',
            Navigate ''http://localhost:3000/docs#intro'',
            ScrollIntoView (''page [id='' @ [CHR 0x22] @ ''intro'' @ [CHR 0x22] @ '']'')]
   \<and> onClick page_env ''page'' meta_click ''http://localhost:3000/docs#intro'' =
       Inr [CaptureEvent ''click'' ''http://localhost:3000/docs#intro'' ''/docs#intro'',
            WindowOpen ''http://localhost:3000/docs#intro'' ''_blank'']
   \<and> onClick page_env ''page'' plain_click ''http://localhost:3000/docs#other'' =
       Inr [CaptureEvent ''click'' ''Intro'' ''/docs#other'',
            Navigate ''http://localhost:3000/docs#other'']
   \<and> onClick page_env ''page'' meta_click ''http://localhost:3000/docs#other'' =
       Inr [CaptureEvent ''click'' ''http://localhost:3000/docs#other'' ''/docs#other'',
            WindowOpen ''http://localhost:3000/docs#other'' ''_blank'']"
proof -
  let ?intro = "''http://localhost:3000/docs#intro''"
  let ?other = "''http://localhost:3000/docs#other''"
  have parsed: "newURL page_env ?intro = Some \<lparr>hash = ''#intro''\<rparr>"
    and parsed': "newURL page_env ?other = Some \<lparr>hash = ''#other''\<rparr>"
    by (simp_all add: page_env_def hash_of_def)
  have frag: "hash \<lparr>hash = ''#intro''\<rparr> = CHR ''#'' # ''intro''"
    and frag': "hash \<lparr>hash = ''#other''\<rparr> = CHR ''#'' # ''other''"
    by simp_all
  have found: "querySelector page_env ''page''
      (''[id='' @ [CHR 0x22] @ ''intro'' @ [CHR 0x22] @ '']'')
      = Some (''page [id='' @ [CHR 0x22] @ ''intro'' @ [CHR 0x22] @ '']'')"
    and missing: "querySelector page_env ''page''
      (''[id='' @ [CHR 0x22] @ ''other'' @ [CHR 0x22] @ '']'') = None"
    by (simp_all add: page_env_def)
  have keys: "\<not> ctrlKey plain_click" "\<not> metaKey plain_click" "metaKey meta_click"
    by (simp_all add: plain_click_def meta_click_def)
  have texts: "link_text page_env plain_click ?intro = ''Intro''"
    "link_text page_env plain_click ?other = ''Intro''"
    "link_text page_env meta_click ?intro = ?intro"
    "link_text page_env meta_click ?other = ?other"
    by (simp_all add: link_text_def plain_click_def meta_click_def page_env_def)
  have stripped: "string_replace (origin page_env) [] ?intro = ''/docs#intro''"
    "string_replace (origin page_env) [] ?other = ''/docs#other''"
    by (simp_all add: page_env_def)
  from onClick_fragment [OF parsed frag, where ev = plain_click and el = "''page''"]
  have one: "onClick page_env ''page'' plain_click ?intro =
       Inr [CaptureEvent ''click'' ''Intro'' ''/docs#intro'', Navigate ?intro,
            ScrollIntoView (''page [id='' @ [CHR 0x22] @ ''intro'' @ [CHR 0x22] @ '']'')]"
    using keys by (simp only: found texts stripped) simp
  from onClick_fragment [OF parsed frag, where ev = meta_click and el = "''page''"]
  have two: "onClick page_env ''page'' meta_click ?intro =
       Inr [CaptureEvent ''click'' ?intro ''/docs#intro'', WindowOpen ?intro ''_blank'']"
    using keys by (simp only: texts stripped) simp
  from onClick_fragment [OF parsed' frag', where ev = plain_click and el = "''page''"]
  have three: "onClick page_env ''page'' plain_click ?other =
       Inr [CaptureEvent ''click'' ''Intro'' ''/docs#other'', Navigate ?other]"
    using keys by (simp only: missing texts stripped) simp
  from onClick_fragment [OF parsed' frag', where ev = meta_click and el = "''page''"]
  have four: "onClick page_env ''page'' meta_click ?other =
       Inr [CaptureEvent ''click'' ?other ''/docs#other'', WindowOpen ?other ''_blank'']"
    using keys by (simp only: texts stripped) simp
  from parsed parsed' one two three four show ?thesis
    by blast
qed




text \<open>
  C6. A click without control and meta on a link whose parsed URL has an empty hash: after the
  analytics event the handler calls \<^verbatim>\<open>navigate(url)\<close> and nothing else: no
  \<^verbatim>\<open>scrollIntoView\<close>, no \<^verbatim>\<open>window.open\<close>.
\<close>

theorem onClick_no_fragment:
  assumes "newURL E url = Some parsedUrl"
    and "hash parsedUrl = []"
    and "\<not> ctrlKey ev" and "\<not> metaKey ev"
  shows "onClick E el ev url =
           Inr [CaptureEvent ''click'' (link_text E ev url) (string_replace (origin E) [] url),
                Navigate url]"
  using assms by (simp add: onClick_def)

theorem onClick_no_fragment_witness:
  "newURL page_env ''http://localhost:3000/docs'' = Some \<lparr>hash = []\<rparr>
   \<and> \<not> ctrlKey plain_click \<and> \<not> metaKey plain_click
   \<and> onClick page_env ''page'' plain_click ''http://localhost:3000/docs'' =
       Inr [CaptureEvent ''click'' ''Intro'' ''/docs'', Navigate ''http://localhost:3000/docs'']"
proof -
  let ?url = "''http://localhost:3000/docs''"
  have parsed: "newURL page_env ?url = Some \<lparr>hash = []\<rparr>"
    by (simp add: page_env_def hash_of_def)
  have no_hash: "hash \<lparr>hash = []\<rparr> = []"
    by simp
  have no_ctrl: "\<not> ctrlKey plain_click" and no_meta: "\<not> metaKey plain_click"
    by (simp_all add: plain_click_def)
  from onClick_no_fragment [OF parsed no_hash no_ctrl no_meta, where el = "''page''"]
  show ?thesis
    using parsed no_ctrl no_meta
    by (simp add: link_text_def plain_click_def page_env_def)
qed

subsection \<open>The pre-render pipeline\<close>

text \<open>
  C7. \<^verbatim>\<open>preRender\<close> calls its transformers in the order sanitize, add base URL, rewrite doc
  links, add sidebar toggle, remove MkDocs header, simplify MkDocs footer, add Git feedback
  link, apply styles: what was called is always an initial part of that list, and all eight
  once the promise resolves. The first transformer receives the parsed raw content, each
  later one the output of the one before it, and the promise resolves to the output of the
  last.
\<close>

theorem preRender_order:
  "prefix (fst (preRender E entityRef raw p))
     [sanitizerTransformer, addBaseUrl entityRef p, rewriteDocLinks, addSidebarToggle,
      removeMkdocsHeader, simplifyMkdocsFooter, addGitFeedbackLink, stylesTransformer]
   \<and> (snd (preRender E entityRef raw p) \<noteq> None \<longrightarrow>
        fst (preRender E entityRef raw p) =
          [sanitizerTransformer, addBaseUrl entityRef p, rewriteDocLinks, addSidebarToggle,
           removeMkdocsHeader, simplifyMkdocsFooter, addGitFeedbackLink, stylesTransformer])
   \<and> snd (preRender E entityRef raw p) =
        Option.bind (Option.bind (Option.bind (Option.bind (Option.bind (Option.bind
          (Option.bind
            (applyTransformer E sanitizerTransformer (parseFromString E raw))
            (applyTransformer E (addBaseUrl entityRef p)))
            (applyTransformer E rewriteDocLinks))
            (applyTransformer E addSidebarToggle))
            (applyTransformer E removeMkdocsHeader))
            (applyTransformer E simplifyMkdocsFooter))
            (applyTransformer E addGitFeedbackLink))
            (applyTransformer E stylesTransformer)"
proof (intro conjI impI)
  show "prefix (fst (preRender E entityRef raw p))
     [sanitizerTransformer, addBaseUrl entityRef p, rewriteDocLinks, addSidebarToggle,
      removeMkdocsHeader, simplifyMkdocsFooter, addGitFeedbackLink, stylesTransformer]"
    using transform_called_prefix [of E "parseFromString E raw" "preRender_transformers entityRef p"]
    by (simp add: preRender_def preRender_transformers_def)
next
  assume "snd (preRender E entityRef raw p) \<noteq> None"
  then obtain out where "snd (preRender E entityRef raw p) = Some out"
    by blast
  then show "fst (preRender E entityRef raw p) =
     [sanitizerTransformer, addBaseUrl entityRef p, rewriteDocLinks, addSidebarToggle,
      removeMkdocsHeader, simplifyMkdocsFooter, addGitFeedbackLink, stylesTransformer]"
    using transform_resolved_all [of E "parseFromString E raw" "preRender_transformers entityRef p" out]
    by (simp add: preRender_def preRender_transformers_def)
next
  show "snd (preRender E entityRef raw p) =
        Option.bind (Option.bind (Option.bind (Option.bind (Option.bind (Option.bind
          (Option.bind
            (applyTransformer E sanitizerTransformer (parseFromString E raw))
            (applyTransformer E (addBaseUrl entityRef p)))
            (applyTransformer E rewriteDocLinks))
            (applyTransformer E addSidebarToggle))
            (applyTransformer E removeMkdocsHeader))
            (applyTransformer E simplifyMkdocsFooter))
            (applyTransformer E addGitFeedbackLink))
            (applyTransformer E stylesTransformer)"
    by (simp add: preRender_def preRender_transformers_def split_beta split: option.splits)
qed

theorem preRender_order_witness:
  "snd (preRender page_env docs_entity ''page'' ''guide'') \<noteq> None
   \<and> preRender page_env docs_entity ''page'' ''guide'' =
       ([sanitizerTransformer, addBaseUrl docs_entity ''guide'', rewriteDocLinks,
         addSidebarToggle, removeMkdocsHeader, simplifyMkdocsFooter, addGitFeedbackLink,
         stylesTransformer],
        Some ''pagesbrthfgy'')"
proof -
  have resolved: "snd (preRender page_env docs_entity ''page'' ''guide'') = Some ''pagesbrthfgy''"
    by (simp add: preRender_def preRender_transformers_def page_env_def)
  then have "snd (preRender page_env docs_entity ''page'' ''guide'') \<noteq> None"
    by simp
  with preRender_order [of page_env docs_entity "''page''" "''guide''"]
  have "fst (preRender page_env docs_entity ''page'' ''guide'') =
       [sanitizerTransformer, addBaseUrl docs_entity ''guide'', rewriteDocLinks,
         addSidebarToggle, removeMkdocsHeader, simplifyMkdocsFooter, addGitFeedbackLink,
         stylesTransformer]"
    by blast
  with resolved show ?thesis
    by (simp add: prod_eq_iff)
qed

subsection \<open>The render effect\<close>

text \<open>
  C2. When the pre-render of run \<open>r\<close> resolves to an element whose \<^verbatim>\<open>innerHTML\<close> is empty,
  the callback returns at line 233: the mounted element stays what it was, the step adds
  nothing to the trace but the eight pre-render calls that produced the element, and whatever
  happens afterwards the run adds nothing more: no scroll, no post-render transformer, no
  \<^verbatim>\<open>setDom\<close>.
\<close>

theorem empty_pre_render_is_noop:
  assumes "r < length (runs s)" and "phase (runs s ! r) = PreRendering"
    and "snd (preRender E entityRef (rawPage (runs s ! r)) (path (runs s ! r))) = Some el"
    and "innerHTML E el = []"
  shows "dom_state (step E entityRef s (PreRenderSettled r)) = dom_state s
       \<and> trace (step E entityRef s (PreRenderSettled r)) =
           trace s @ map (Invoke r)
             [sanitizerTransformer, addBaseUrl entityRef (path (runs s ! r)), rewriteDocLinks,
              addSidebarToggle, removeMkdocsHeader, simplifyMkdocsFooter, addGitFeedbackLink,
              stylesTransformer]
       \<and> run_actions r (trace (exec E entityRef s (PreRenderSettled r # evs))) =
           run_actions r (trace s) @ map (Invoke r)
             [sanitizerTransformer, addBaseUrl entityRef (path (runs s ! r)), rewriteDocLinks,
              addSidebarToggle, removeMkdocsHeader, simplifyMkdocsFooter, addGitFeedbackLink,
              stylesTransformer]"
proof -
  let ?s' = "step E entityRef s (PreRenderSettled r)"
  have s': "?s' = s\<lparr>trace := trace s @ map (Invoke r)
                 (preRender_transformers entityRef (path (runs s ! r))),
              runs := set_phase r Settled (runs s)\<rparr>"
    using assms pre_render_settled_empty [OF assms(3,4)] by simp
  have settled: "r < length (runs ?s')" "phase (runs ?s' ! r) = Settled"
    using assms(1) unfolding s' by (simp_all add: nth_set_phase)
  have "run_actions r (trace (exec E entityRef ?s' evs)) = run_actions r (trace ?s')"
    using exec_settled [OF settled] by simp
  then have "run_actions r (trace (exec E entityRef s (PreRenderSettled r # evs))) =
      run_actions r (trace s) @ map (Invoke r)
        (preRender_transformers entityRef (path (runs s ! r)))"
    unfolding exec.simps s' by (simp add: run_actions_Invoke)
  moreover have "dom_state ?s' = dom_state s"
    unfolding s' by simp
  moreover have "trace ?s' = trace s @ map (Invoke r)
        (preRender_transformers entityRef (path (runs s ! r)))"
    unfolding s' by simp
  ultimately show ?thesis
    by (simp only: preRender_transformers_def)
qed


theorem empty_pre_render_is_noop_witness:
  "phase (runs (exec page_env docs_entity initial_state blank_after_mount) ! 1) = PreRendering
   \<and> snd (preRender page_env docs_entity '' '' ''other'') = Some []
   \<and> innerHTML page_env [] = []
   \<and> dom_state (step page_env docs_entity
         (exec page_env docs_entity initial_state blank_after_mount) (PreRenderSettled 1))
       = Some ''pagesbrthfgyANCLR''
   \<and> run_actions 1 (trace (exec page_env docs_entity
         (exec page_env docs_entity initial_state blank_after_mount)
         [PreRenderSettled 1, PostRenderSettled 1, Resize]))
       = map (Invoke 1)
           [sanitizerTransformer, addBaseUrl docs_entity ''other'', rewriteDocLinks,
            addSidebarToggle, removeMkdocsHeader, simplifyMkdocsFooter, addGitFeedbackLink,
            stylesTransformer]"
proof -
  let ?s = "exec page_env docs_entity initial_state blank_after_mount"
  have len: "1 < length (runs ?s)"
    and ph: "phase (runs ?s ! 1) = PreRendering"
    and raw: "rawPage (runs ?s ! 1) = '' ''" and p: "path (runs ?s ! 1) = ''other''"
    and mounted: "dom_state ?s = Some ''pagesbrthfgyANCLR''"
    by (simp_all add: blank_state)
  have before: "run_actions 1 (trace ?s) = []"
    by (simp add: blank_state run_actions_def preRender_transformers_def
        postRender_transformers_def)
  have pre: "snd (preRender page_env docs_entity '' '' ''other'') = Some []"
    by (simp add: preRender_def preRender_transformers_def page_env_def)
  then have pre': "snd (preRender page_env docs_entity (rawPage (runs ?s ! 1)) (path (runs ?s ! 1)))
      = Some []"
    by (simp only: raw p)
  have empty: "innerHTML page_env [] = []"
    by (simp add: page_env_def)
  from empty_pre_render_is_noop [OF len ph pre' empty, of "[PostRenderSettled 1, Resize]"]
  show ?thesis
    using ph pre empty by (simp only: p mounted before) simp
qed


text \<open>
  C10. A run commits when its pre-render resolves to an element with content while its flag
  is still set. At that step the trace gains the eight pre-render calls and then
  \<^verbatim>\<open>window.scroll({ top: 0 })\<close>, and nothing else. Whatever happens afterwards, the run's
  part of the trace is either just that, or that followed by the post-render calls and the
  \<^verbatim>\<open>setDom\<close>: the scroll comes after the commit check and before every post-render
  transformer.
\<close>

theorem commit_scrolls_to_top:
  assumes "s = exec E entityRef initial_state evs0"
    and "r < length (runs s)" and "phase (runs s ! r) = PreRendering"
    and "snd (preRender E entityRef (rawPage (runs s ! r)) (path (runs s ! r))) = Some el"
    and "innerHTML E el \<noteq> []" and "shouldReplaceContent (runs s ! r)"
  shows "trace (step E entityRef s (PreRenderSettled r)) =
           trace s @ map (Invoke r)
             [sanitizerTransformer, addBaseUrl entityRef (path (runs s ! r)), rewriteDocLinks,
              addSidebarToggle, removeMkdocsHeader, simplifyMkdocsFooter, addGitFeedbackLink,
              stylesTransformer] @ [WindowScroll r 0]
       \<and> (run_actions r (trace (exec E entityRef s (PreRenderSettled r # evs))) =
             map (Invoke r)
               [sanitizerTransformer, addBaseUrl entityRef (path (runs s ! r)), rewriteDocLinks,
                addSidebarToggle, removeMkdocsHeader, simplifyMkdocsFooter, addGitFeedbackLink,
                stylesTransformer] @ [WindowScroll r 0]
          \<or> run_actions r (trace (exec E entityRef s (PreRenderSettled r # evs))) =
             map (Invoke r)
               [sanitizerTransformer, addBaseUrl entityRef (path (runs s ! r)), rewriteDocLinks,
                addSidebarToggle, removeMkdocsHeader, simplifyMkdocsFooter, addGitFeedbackLink,
                stylesTransformer] @ [WindowScroll r 0]
               @ map (Invoke r) (fst (postRender E el))
               @ (case snd (postRender E el) of None \<Rightarrow> [] | Some out \<Rightarrow> [SetDom r out]))"
proof -
  let ?run = "runs s ! r"
  let ?pre = "preRender E entityRef (rawPage ?run) (path ?run)"
  let ?called = "map (Invoke r) (preRender_transformers entityRef (path ?run))"
  define s' where "s' = step E entityRef s (PreRenderSettled r)"
  define final where "final = exec E entityRef s' evs"
  have fst_pre: "fst ?pre = preRender_transformers entityRef (path ?run)"
    using assms(4) transform_resolved_all by (fastforce simp: preRender_def)
  have s': "s' = s\<lparr>trace := trace s @ ?called @ [WindowScroll r 0],
                     runs := set_phase r (PostRendering el) (runs s)\<rparr>"
    using assms(2,3) pre_render_settled_commit [OF assms(4,5,6)] by (simp add: s'_def)
  have inv_s: "hook_inv E entityRef s"
    unfolding assms(1) by (rule hook_inv_reachable)
  then have "run_inv E entityRef r ?run (run_actions r (trace s))"
    using assms(2) by (simp add: hook_inv_def)
  then have none_before: "run_actions r (trace s) = []"
    using assms(3) by (simp add: run_inv_def Let_def)
  have first: "trace s' = trace s @ ?called @ [WindowScroll r 0]"
    unfolding s' by simp
  have mine: "run_actions r (trace s') = ?called @ [WindowScroll r 0]"
    unfolding first using none_before by (simp add: run_actions_Invoke run_actions_single)
  have len': "r < length (runs s')" and ph': "phase (runs s' ! r) \<noteq> PreRendering"
    and static': "rawPage (runs s' ! r) = rawPage ?run" "path (runs s' ! r) = path ?run"
    using assms(2) unfolding s' by (simp_all add: nth_set_phase)
  have len: "r < length (runs final)"
    using len' exec_runs_length [of s' E entityRef evs] by (simp add: final_def)
  have ph: "phase (runs final ! r) \<noteq> PreRendering"
    unfolding final_def by (rule exec_phase_forward [OF len' ph'])
  have static: "rawPage (runs final ! r) = rawPage ?run" "path (runs final ! r) = path ?run"
    using exec_run_static [OF len', of E entityRef evs] static' by (simp_all add: final_def)
  have "hook_inv E entityRef final"
    unfolding final_def s'_def by (intro hook_inv_exec hook_inv_step inv_s)
  then have inv_r: "run_inv E entityRef r (runs final ! r) (run_actions r (trace final))"
    using len by (simp add: hook_inv_def)
  have grown: "prefix (?called @ [WindowScroll r 0]) (run_actions r (trace final))"
    using run_actions_prefix [OF exec_trace_prefix [of s' E entityRef evs], of r] mine
    by (simp add: final_def)
  have more: "run_actions r (trace final) \<noteq> ?called"
  proof
    assume "run_actions r (trace final) = ?called"
    with grown have "prefix (?called @ [WindowScroll r 0]) ?called" by simp
    then show False
      by (auto simp: prefix_def)
  qed
  have "run_actions r (trace final) = ?called @ [WindowScroll r 0]
      \<or> run_actions r (trace final) = ?called @ committed_script E r el"
  proof (cases "phase (runs final ! r)")
    case PreRendering
    with ph show ?thesis by simp
  next
    case (PostRendering el')
    with inv_r show ?thesis
      by (simp add: run_inv_def Let_def static fst_pre)
  next
    case Settled
    with inv_r more show ?thesis
      by (auto simp: run_inv_def Let_def static fst_pre assms(4))
  qed
  then have "run_actions r (trace (exec E entityRef s (PreRenderSettled r # evs))) =
        ?called @ [WindowScroll r 0]
      \<or> run_actions r (trace (exec E entityRef s (PreRenderSettled r # evs))) =
        ?called @ [WindowScroll r 0] @ map (Invoke r) (fst (postRender E el))
          @ (case snd (postRender E el) of None \<Rightarrow> [] | Some out \<Rightarrow> [SetDom r out])"
    by (simp add: committed_script_def final_def s'_def)
  with first show ?thesis
    unfolding s'_def by (simp only: preRender_transformers_def)
qed


theorem commit_scrolls_to_top_witness:
  "phase (runs (exec page_env docs_entity initial_state one_request) ! 0) = PreRendering
   \<and> shouldReplaceContent (runs (exec page_env docs_entity initial_state one_request) ! 0)
   \<and> snd (preRender page_env docs_entity ''page'' ''guide'') = Some ''pagesbrthfgy''
   \<and> innerHTML page_env ''pagesbrthfgy'' \<noteq> []
   \<and> trace (step page_env docs_entity
        (exec page_env docs_entity initial_state one_request) (PreRenderSettled 0)) =
       [Invoke 0 sanitizerTransformer, Invoke 0 (addBaseUrl docs_entity ''guide''),
        Invoke 0 rewriteDocLinks, Invoke 0 addSidebarToggle, Invoke 0 removeMkdocsHeader,
        Invoke 0 simplifyMkdocsFooter, Invoke 0 addGitFeedbackLink, Invoke 0 stylesTransformer,
        WindowScroll 0 0]
   \<and> run_actions 0 (trace (exec page_env docs_entity
        (exec page_env docs_entity initial_state one_request)
        [PreRenderSettled 0, Resize, PostRenderSettled 0])) =
       [Invoke 0 sanitizerTransformer, Invoke 0 (addBaseUrl docs_entity ''guide''),
        Invoke 0 rewriteDocLinks, Invoke 0 addSidebarToggle, Invoke 0 removeMkdocsHeader,
        Invoke 0 simplifyMkdocsFooter, Invoke 0 addGitFeedbackLink, Invoke 0 stylesTransformer,
        WindowScroll 0 0,
        Invoke 0 scrollIntoAnchor, Invoke 0 scrollIntoNavigation, Invoke 0 copyToClipboard,
        Invoke 0 (addLinkClickListener ''http://localhost:3000'' ''pagesbrthfgy''),
        Invoke 0 (onCssReady ''pagesbrthfgy''), SetDom 0 ''pagesbrthfgyANCLR'']"
proof -
  define s where "s = exec page_env docs_entity initial_state one_request"
  have s: "s = exec page_env docs_entity initial_state one_request"
    by (simp add: s_def)
  have len: "0 < length (runs s)" and ph: "phase (runs s ! 0) = PreRendering"
    and flag: "shouldReplaceContent (runs s ! 0)"
    and raw: "rawPage (runs s ! 0) = ''page''" and p: "path (runs s ! 0) = ''guide''"
    and empty: "trace s = []"
    by (simp_all add: s_def one_request_state)
  have pre: "snd (preRender page_env docs_entity ''page'' ''guide'') = Some ''pagesbrthfgy''"
    by (simp add: preRender_def preRender_transformers_def page_env_def)
  then have pre': "snd (preRender page_env docs_entity (rawPage (runs s ! 0)) (path (runs s ! 0)))
      = Some ''pagesbrthfgy''"
    by (simp only: raw p)
  have content: "innerHTML page_env ''pagesbrthfgy'' \<noteq> []"
    by (simp add: page_env_def)
  have post: "postRender page_env ''pagesbrthfgy'' =
      ([scrollIntoAnchor, scrollIntoNavigation, copyToClipboard,
        addLinkClickListener ''http://localhost:3000'' ''pagesbrthfgy'',
        onCssReady ''pagesbrthfgy''], Some ''pagesbrthfgyANCLR'')"
    by (simp add: postRender_def postRender_transformers_def page_env_def)
  define acts where "acts = run_actions 0 (trace (exec page_env docs_entity s
        [PreRenderSettled 0, Resize, PostRenderSettled 0]))"
  have mounted: "SetDom 0 ''pagesbrthfgyANCLR'' \<in> set acts"
    by (simp add: acts_def s_def one_request_def machine_defs run_actions_def)
  note scrolled = commit_scrolls_to_top [OF s len ph pre' content flag,
      of "[Resize, PostRenderSettled 0]"]
  from scrolled have step1: "trace (step page_env docs_entity s (PreRenderSettled 0)) =
       [Invoke 0 sanitizerTransformer, Invoke 0 (addBaseUrl docs_entity ''guide''),
        Invoke 0 rewriteDocLinks, Invoke 0 addSidebarToggle, Invoke 0 removeMkdocsHeader,
        Invoke 0 simplifyMkdocsFooter, Invoke 0 addGitFeedbackLink, Invoke 0 stylesTransformer,
        WindowScroll 0 0]"
    by (simp only: p empty) simp
  from scrolled have "acts =
       map (Invoke 0)
         [sanitizerTransformer, addBaseUrl docs_entity ''guide'', rewriteDocLinks,
          addSidebarToggle, removeMkdocsHeader, simplifyMkdocsFooter, addGitFeedbackLink,
          stylesTransformer] @ [WindowScroll 0 0]
     \<or> acts =
       map (Invoke 0)
         [sanitizerTransformer, addBaseUrl docs_entity ''guide'', rewriteDocLinks,
          addSidebarToggle, removeMkdocsHeader, simplifyMkdocsFooter, addGitFeedbackLink,
          stylesTransformer] @ [WindowScroll 0 0]
       @ map (Invoke 0) [scrollIntoAnchor, scrollIntoNavigation, copyToClipboard,
          addLinkClickListener ''http://localhost:3000'' ''pagesbrthfgy'',
          onCssReady ''pagesbrthfgy'']
       @ [SetDom 0 ''pagesbrthfgyANCLR'']"
    unfolding acts_def by (simp only: p post fst_conv snd_conv option.case)
  with mounted have "acts =
       [Invoke 0 sanitizerTransformer, Invoke 0 (addBaseUrl docs_entity ''guide''),
        Invoke 0 rewriteDocLinks, Invoke 0 addSidebarToggle, Invoke 0 removeMkdocsHeader,
        Invoke 0 simplifyMkdocsFooter, Invoke 0 addGitFeedbackLink, Invoke 0 stylesTransformer,
        WindowScroll 0 0,
        Invoke 0 scrollIntoAnchor, Invoke 0 scrollIntoNavigation, Invoke 0 copyToClipboard,
        Invoke 0 (addLinkClickListener ''http://localhost:3000'' ''pagesbrthfgy''),
        Invoke 0 (onCssReady ''pagesbrthfgy''), SetDom 0 ''pagesbrthfgyANCLR'']"
    by auto
  then have all: "run_actions 0 (trace (exec page_env docs_entity s
        [PreRenderSettled 0, Resize, PostRenderSettled 0])) =
       [Invoke 0 sanitizerTransformer, Invoke 0 (addBaseUrl docs_entity ''guide''),
        Invoke 0 rewriteDocLinks, Invoke 0 addSidebarToggle, Invoke 0 removeMkdocsHeader,
        Invoke 0 simplifyMkdocsFooter, Invoke 0 addGitFeedbackLink, Invoke 0 stylesTransformer,
        WindowScroll 0 0,
        Invoke 0 scrollIntoAnchor, Invoke 0 scrollIntoNavigation, Invoke 0 copyToClipboard,
        Invoke 0 (addLinkClickListener ''http://localhost:3000'' ''pagesbrthfgy''),
        Invoke 0 (onCssReady ''pagesbrthfgy''), SetDom 0 ''pagesbrthfgyANCLR'']"
    by (simp only: acts_def)
  from ph flag pre content step1 all show ?thesis
    unfolding s_def by blast
qed


text \<open>
  C8. In every reachable state, the transformers a run has called so far are an initial part
  of the eight pre-render transformers followed by the five post-render transformers
  (scroll into anchor, scroll into navigation, copy to clipboard, link click listener, CSS
  ready), the latter built for the element the pre-render resolved to. So no post-render
  transformer is called before all eight pre-render ones, and both stages keep their order.
  A run that has called \<^verbatim>\<open>setDom\<close> has called all thirteen.
\<close>

theorem pipeline_order:
  assumes "s = exec E entityRef initial_state evs" and "r < length (runs s)"
  shows "prefix (invoked r (trace s))
           ([sanitizerTransformer, addBaseUrl entityRef (path (runs s ! r)), rewriteDocLinks,
             addSidebarToggle, removeMkdocsHeader, simplifyMkdocsFooter, addGitFeedbackLink,
             stylesTransformer]
            @ (case snd (preRender E entityRef (rawPage (runs s ! r)) (path (runs s ! r))) of
                 None \<Rightarrow> []
               | Some el \<Rightarrow>
                   [scrollIntoAnchor, scrollIntoNavigation, copyToClipboard,
                    addLinkClickListener (origin E) el, onCssReady el]))
       \<and> (\<forall>out. SetDom r out \<in> set (trace s) \<longrightarrow>
             (\<exists>el. snd (preRender E entityRef (rawPage (runs s ! r)) (path (runs s ! r))) = Some el
                \<and> invoked r (trace s) =
                    [sanitizerTransformer, addBaseUrl entityRef (path (runs s ! r)),
                     rewriteDocLinks, addSidebarToggle, removeMkdocsHeader,
                     simplifyMkdocsFooter, addGitFeedbackLink, stylesTransformer,
                     scrollIntoAnchor, scrollIntoNavigation, copyToClipboard,
                     addLinkClickListener (origin E) el, onCssReady el]))"
proof -
  let ?run = "runs s ! r"
  let ?pre = "preRender E entityRef (rawPage ?run) (path ?run)"
  let ?PRE = "preRender_transformers entityRef (path ?run)"
  define acts where "acts = run_actions r (trace s)"
  define POST where "POST =
    (case snd ?pre of
       None \<Rightarrow> []
     | Some el \<Rightarrow>
         [scrollIntoAnchor, scrollIntoNavigation, copyToClipboard,
          addLinkClickListener (origin E) el, onCssReady el])"
  have inv: "run_inv E entityRef r ?run acts"
    using hook_inv_reachable [of E entityRef evs] assms by (simp add: hook_inv_def acts_def)
  have inv_acts: "invoked r (trace s) = invoked r acts"
    by (simp add: acts_def invoked_run_actions)
  have pre_prefix: "prefix (fst ?pre) ?PRE"
    by (simp add: preRender_def transform_called_prefix)
  have pre_all: "fst ?pre = ?PRE" if "snd ?pre = Some el" for el
    using that transform_resolved_all by (fastforce simp: preRender_def)
  have post_prefix: "prefix (fst (postRender E el)) (postRender_transformers E el)" for el
    by (simp add: postRender_def transform_called_prefix)
  have post_all: "fst (postRender E el) = postRender_transformers E el"
    if "snd (postRender E el) = Some out" for el out
    using that transform_resolved_all by (fastforce simp: postRender_def)
  have scroll: "invoked r [WindowScroll r 0] = []"
    by simp
  consider (none) "acts = []"
    | (post) el where "snd ?pre = Some el" "acts = map (Invoke r) (fst ?pre) @ [WindowScroll r 0]"
    | (dropped) "acts = map (Invoke r) (fst ?pre)"
    | (committed) el where "snd ?pre = Some el"
        "acts = map (Invoke r) (fst ?pre) @ committed_script E r el"
    using inv by (cases "phase ?run") (auto simp: run_inv_def Let_def)
  then have order: "prefix (invoked r acts) (?PRE @ POST)"
  proof cases
    case none
    then show ?thesis by simp
  next
    case (post el)
    then show ?thesis by (simp add: pre_all [OF post(1)])
  next
    case dropped
    then show ?thesis using pre_prefix by (simp add: prefix_prefix)
  next
    case (committed el)
    then show ?thesis
      using post_prefix [of el]
      by (simp add: pre_all [OF committed(1)] invoked_committed_script POST_def
          postRender_transformers_def)
  qed
  have full: "\<exists>el. snd ?pre = Some el \<and> invoked r acts = ?PRE @ postRender_transformers E el"
    if "SetDom r out \<in> set (trace s)" for out
  proof -
    from that have mem: "SetDom r out \<in> set acts"
      by (simp add: acts_def run_actions_def)
    from inv show ?thesis
    proof (cases "phase ?run")
      case PreRendering
      with inv mem show ?thesis by (simp add: run_inv_def Let_def)
    next
      case (PostRendering el)
      with inv mem show ?thesis by (auto simp: run_inv_def Let_def)
    next
      case Settled
      with inv mem obtain el where el: "snd ?pre = Some el"
        and acts: "acts = map (Invoke r) (fst ?pre) @ committed_script E r el"
        by (auto simp: run_inv_def Let_def)
      from mem acts obtain out' where "snd (postRender E el) = Some out'"
        by (auto simp: committed_script_def split: option.splits)
      from post_all [OF this] el acts show ?thesis
        by (simp add: pre_all [OF el] invoked_committed_script)
    qed
  qed
  from order have "prefix (invoked r (trace s)) (?PRE @ POST)"
    by (simp only: inv_acts)
  moreover from full
  have "\<forall>out. SetDom r out \<in> set (trace s) \<longrightarrow>
      (\<exists>el. snd ?pre = Some el
         \<and> invoked r (trace s) = ?PRE @ postRender_transformers E el)"
    by (simp only: inv_acts) blast
  ultimately show ?thesis
    unfolding POST_def preRender_transformers_def postRender_transformers_def
    by simp
qed


theorem pipeline_order_witness:
  "0 < length (runs (exec page_env docs_entity initial_state mounted_and_loading))
   \<and> SetDom 0 ''pagesbrthfgyANCLR''
       \<in> set (trace (exec page_env docs_entity initial_state mounted_and_loading))
   \<and> invoked 0 (trace (exec page_env docs_entity initial_state mounted_and_loading)) =
       [sanitizerTransformer, addBaseUrl docs_entity ''guide'', rewriteDocLinks,
        addSidebarToggle, removeMkdocsHeader, simplifyMkdocsFooter, addGitFeedbackLink,
        stylesTransformer, scrollIntoAnchor, scrollIntoNavigation, copyToClipboard,
        addLinkClickListener ''http://localhost:3000'' ''pagesbrthfgy'',
        onCssReady ''pagesbrthfgy'']"
proof -
  define s where "s = exec page_env docs_entity initial_state mounted_and_loading"
  have s: "s = exec page_env docs_entity initial_state mounted_and_loading"
    by (simp add: s_def)
  have len: "0 < length (runs s)"
    and raw: "rawPage (runs s ! 0) = ''page''" and p: "path (runs s ! 0) = ''guide''"
    and mounted: "SetDom 0 ''pagesbrthfgyANCLR'' \<in> set (trace s)"
    by (simp_all add: s_def mounted_and_loading_state)
  have pre: "snd (preRender page_env docs_entity ''page'' ''guide'') = Some ''pagesbrthfgy''"
    by (simp add: preRender_def preRender_transformers_def page_env_def)
  have here: "origin page_env = ''http://localhost:3000''"
    by (simp add: page_env_def)
  from pipeline_order [OF s len] mounted
  obtain el where "snd (preRender page_env docs_entity (rawPage (runs s ! 0)) (path (runs s ! 0)))
        = Some el"
    and "invoked 0 (trace s) =
       [sanitizerTransformer, addBaseUrl docs_entity (path (runs s ! 0)), rewriteDocLinks,
        addSidebarToggle, removeMkdocsHeader, simplifyMkdocsFooter, addGitFeedbackLink,
        stylesTransformer, scrollIntoAnchor, scrollIntoNavigation, copyToClipboard,
        addLinkClickListener (origin page_env) el, onCssReady el]"
    by blast
  then have "invoked 0 (trace s) =
       [sanitizerTransformer, addBaseUrl docs_entity ''guide'', rewriteDocLinks,
        addSidebarToggle, removeMkdocsHeader, simplifyMkdocsFooter, addGitFeedbackLink,
        stylesTransformer, scrollIntoAnchor, scrollIntoNavigation, copyToClipboard,
        addLinkClickListener ''http://localhost:3000'' ''pagesbrthfgy'',
        onCssReady ''pagesbrthfgy'']"
    using pre by (simp add: raw p here)
  with len mounted show ?thesis
    unfolding s_def by blast
qed

text \<open>
  C1. The flag is read once, on line 237, before the \<^verbatim>\<open>await\<close> of line 245; \<^verbatim>\<open>setDom\<close>
  on line 248 follows that \<^verbatim>\<open>await\<close> without reading it again. Here the first request has
  passed the check and waits for \<^verbatim>\<open>postRender\<close> when the second request starts: the
  cleanup clears the first run's flag, nothing is mounted yet, and when \<^verbatim>\<open>postRender\<close>
  resolves the first run mounts its result all the same.
\<close>

theorem overtaken_request_still_mounts:
  "\<not> shouldReplaceContent (runs (exec page_env docs_entity initial_state overtaken_request) ! 0)
   \<and> phase (runs (exec page_env docs_entity initial_state overtaken_request) ! 0)
       = PostRendering ''oldsbrthfgy''
   \<and> cleanup (exec page_env docs_entity initial_state overtaken_request) = Some 1
   \<and> dom_state (exec page_env docs_entity initial_state overtaken_request) = None
   \<and> dom_state (exec page_env docs_entity initial_state
         (overtaken_request @ [PostRenderSettled 0])) = Some ''oldsbrthfgyANCLR''
   \<and> last (trace (exec page_env docs_entity initial_state
         (overtaken_request @ [PostRenderSettled 0]))) = SetDom 0 ''oldsbrthfgyANCLR''"
  by (simp add: overtaken_request_def machine_defs)

subsection \<open>The footer width\<close>

text \<open>
  C3, as stated, fails: the \<^verbatim>\<open>resize\<close> listener of line 130 is \<^verbatim>\<open>updateFooterWidth\<close>
  itself, which does not read \<^verbatim>\<open>isStyleLoading\<close>. With a page mounted and its styles
  loading, a resize sets the footer width.
\<close>

theorem resize_while_styles_load:
  "isStyleLoading (exec page_env docs_entity initial_state mounted_and_loading)
   \<and> dom_state (exec page_env docs_entity initial_state mounted_and_loading)
       = Some ''pagesbrthfgyANCLR''
   \<and> trace (exec page_env docs_entity initial_state (mounted_and_loading @ [Resize])) =
       trace (exec page_env docs_entity initial_state mounted_and_loading)
         @ [SetFooterWidth ''pagesbrthfgyANCLR .md-footer'' 1700]"
  by (simp add: mounted_and_loading_def machine_defs)

text \<open>
  C3, amended. With an element mounted that has a \<^verbatim>\<open>.md-footer\<close>, every \<^verbatim>\<open>resize\<close> sets
  the footer's width to the bounding-box width of the mounted element, whether styles are
  loading or not. It is the effect of lines 137-142 that does nothing while styles are
  loading, and sets the same width when they are not.
\<close>

theorem resize_sets_footer_width:
  assumes "dom_state s = Some d" and "querySelector E d ''.md-footer'' = Some footer"
  shows "trace (step E entityRef s Resize) =
           trace s @ [SetFooterWidth footer (boundingWidth E d)]
       \<and> (isStyleLoading s \<longrightarrow> step E entityRef s FooterEffect = s)
       \<and> (\<not> isStyleLoading s \<longrightarrow>
            trace (step E entityRef s FooterEffect) =
              trace s @ [SetFooterWidth footer (boundingWidth E d)])"
  using assms by (simp add: updateFooterWidth_def)

theorem resize_sets_footer_width_witness:
  "dom_state (exec page_env docs_entity initial_state mounted_and_loading)
     = Some ''pagesbrthfgyANCLR''
   \<and> querySelector page_env ''pagesbrthfgyANCLR'' ''.md-footer''
     = Some ''pagesbrthfgyANCLR .md-footer''
   \<and> isStyleLoading (exec page_env docs_entity initial_state mounted_and_loading)
   \<and> trace (step page_env docs_entity
        (exec page_env docs_entity initial_state mounted_and_loading) Resize) =
       trace (exec page_env docs_entity initial_state mounted_and_loading)
         @ [SetFooterWidth ''pagesbrthfgyANCLR .md-footer'' 1700]
   \<and> step page_env docs_entity
        (exec page_env docs_entity initial_state mounted_and_loading) FooterEffect
       = exec page_env docs_entity initial_state mounted_and_loading"
proof -
  define s where "s = exec page_env docs_entity initial_state mounted_and_loading"
  have mounted: "dom_state s = Some ''pagesbrthfgyANCLR''" and loading: "isStyleLoading s"
    by (simp_all add: s_def mounted_and_loading_state)
  have footer: "querySelector page_env ''pagesbrthfgyANCLR'' ''.md-footer''
      = Some ''pagesbrthfgyANCLR .md-footer''"
    by (simp add: page_env_def)
  have width: "boundingWidth page_env ''pagesbrthfgyANCLR'' = 1700"
    by (simp add: page_env_def)
  from resize_sets_footer_width [OF mounted footer, of docs_entity] loading
  have "trace (step page_env docs_entity s Resize) =
          trace s @ [SetFooterWidth ''pagesbrthfgyANCLR .md-footer'' 1700]"
    and "step page_env docs_entity s FooterEffect = s"
    by (simp_all only: width) 
  with mounted footer loading show ?thesis
    unfolding s_def by blast
qed


end
